theory Spec2Isabelle
  imports Complex_Main "HOL-Library.Monad_Syntax"
begin

section \<open>The record store of LinkedList.cpp\<close>

subsection \<open>Data\<close>

text \<open>
  \<^verbatim>\<open>struct Bid { string bidId; string title; string fund; double amount; }\<close>.
  The list code never computes with \<open>amount\<close>: it only stores \<open>0.0\<close> (the
  constructor) and what \<open>atof\<close> returns, so the field is a number without
  floating-point rounding here.
\<close>

record Bid =
  bidId :: string
  title :: string
  fund :: string
  amount :: real

text \<open>\<^verbatim>\<open>Bid()\<close> and \<^verbatim>\<open>Bid{}\<close>: empty strings, amount \<open>0.0\<close>.\<close>

definition Bid_default :: Bid where
  "Bid_default = \<lparr>bidId = [], title = [], fund = [], amount = 0\<rparr>"

text \<open>
  Nodes live in a heap addressed by natural numbers; a pointer is an
  \<open>addr option\<close>, \<open>None\<close> being \<^verbatim>\<open>nullptr\<close>. The field \<^verbatim>\<open>next\<close> is
  called \<open>nxt\<close>.
\<close>

type_synonym addr = nat

record Node =
  bid :: Bid
  nxt :: "addr option"

text \<open>
  The object \<^verbatim>\<open>LinkedList\<close> with its three members \<^verbatim>\<open>head\<close>, \<^verbatim>\<open>tail\<close>,
  \<^verbatim>\<open>size\<close> (here \<open>size_n\<close>), together with the heap its nodes are allocated in.
  \<open>lim\<close> is the allocator's next fresh address: \<^verbatim>\<open>new\<close> never returns an
  address that is live or that was handed out before. Memory is not bounded:
  \<^verbatim>\<open>new\<close> always succeeds.
\<close>

record LinkedList =
  heap :: "addr \<Rightarrow> Node option"
  lim :: addr
  head :: "addr option"
  tail :: "addr option"
  size_n :: int

text \<open>
  \<^verbatim>\<open>size\<close> is a C++ \<^verbatim>\<open>int\<close>. Signed overflow is undefined behaviour, so
  \<^verbatim>\<open>size++\<close> and \<^verbatim>\<open>size--\<close> have no result at the ends of the range.
  Throughout, the result \<open>None\<close> of an operation stands for an execution with
  no defined result: a dereference of a null or freed pointer, a signed
  overflow, or a loop that does not end.
\<close>

definition INT_MAX :: int where
  "INT_MAX = 2147483647"

definition INT_MIN :: int where
  "INT_MIN = - 2147483648"

definition incr :: "int \<Rightarrow> int option" where
  "incr n = (if n = INT_MAX then None else Some (n + 1))"

definition decr :: "int \<Rightarrow> int option" where
  "decr n = (if n = INT_MIN then None else Some (n - 1))"

subsection \<open>Heap primitives\<close>

text \<open>\<^verbatim>\<open>new Node(bid)\<close>: a fresh node holding the bid, with no successor.\<close>

definition new_Node :: "Bid \<Rightarrow> LinkedList \<Rightarrow> addr \<times> LinkedList" where
  "new_Node b s =
     (lim s, s\<lparr>heap := (heap s)(lim s \<mapsto> \<lparr>bid = b, nxt = None\<rparr>), lim := Suc (lim s)\<rparr>)"

text \<open>\<^verbatim>\<open>a->next = v\<close>.\<close>

definition set_next :: "addr \<Rightarrow> addr option \<Rightarrow> LinkedList \<Rightarrow> LinkedList option" where
  "set_next a v s =
     (case heap s a of
        None \<Rightarrow> None
      | Some n \<Rightarrow> Some (s\<lparr>heap := (heap s)(a \<mapsto> n\<lparr>nxt := v\<rparr>)\<rparr>))"

text \<open>\<^verbatim>\<open>delete a\<close>.\<close>

definition delete_Node :: "addr \<Rightarrow> LinkedList \<Rightarrow> LinkedList option" where
  "delete_Node a s =
     (case heap s a of
        None \<Rightarrow> None
      | Some n \<Rightarrow> Some (s\<lparr>heap := (heap s)(a := None)\<rparr>))"

subsection \<open>Operations of class LinkedList (LinkedList.cpp)\<close>

text \<open>\<^verbatim>\<open>LinkedList::LinkedList() : head(nullptr), tail(nullptr), size(0) {}\<close>\<close>

definition LinkedList_new :: LinkedList where
  "LinkedList_new = \<lparr>heap = (\<lambda>a. None), lim = 0, head = None, tail = None, size_n = 0\<rparr>"

text \<open>
  \<^verbatim>\<open>Append\<close>: allocate; if \<^verbatim>\<open>head == nullptr\<close> then \<^verbatim>\<open>head = tail = newNode\<close>,
  else \<^verbatim>\<open>tail->next = newNode; tail = newNode\<close>; then \<^verbatim>\<open>size++\<close>.
\<close>

definition Append :: "Bid \<Rightarrow> LinkedList \<Rightarrow> LinkedList option" where
  "Append b s =
     (case new_Node b s of (newNode, s1) \<Rightarrow>
        do {
          s2 \<leftarrow> (if head s1 = None then Some (s1\<lparr>head := Some newNode, tail := Some newNode\<rparr>)
                else (case tail s1 of
                        None \<Rightarrow> None
                      | Some t \<Rightarrow>
                          do {
                            s' \<leftarrow> set_next t (Some newNode) s1;
                            Some (s'\<lparr>tail := Some newNode\<rparr>)
                          }));
          k \<leftarrow> incr (size_n s2);
          Some (s2\<lparr>size_n := k\<rparr>)
        })"

text \<open>
  \<^verbatim>\<open>Prepend\<close>: allocate; if \<^verbatim>\<open>head == nullptr\<close> then \<^verbatim>\<open>head = tail = newNode\<close>,
  else \<^verbatim>\<open>newNode->next = head; head = newNode\<close>; then \<^verbatim>\<open>size++\<close>.
\<close>

definition Prepend :: "Bid \<Rightarrow> LinkedList \<Rightarrow> LinkedList option" where
  "Prepend b s =
     (case new_Node b s of (newNode, s1) \<Rightarrow>
        do {
          s2 \<leftarrow> (if head s1 = None then Some (s1\<lparr>head := Some newNode, tail := Some newNode\<rparr>)
                else do {
                       s' \<leftarrow> set_next newNode (head s1) s1;
                       Some (s'\<lparr>head := Some newNode\<rparr>)
                     });
          k \<leftarrow> incr (size_n s2);
          Some (s2\<lparr>size_n := k\<rparr>)
        })"

text \<open>
  \<^verbatim>\<open>PrintList\<close>: the loop \<^verbatim>\<open>while (current != nullptr) { displayBid(current->bid);
  current = current->next; }\<close>. The formatting of \<^verbatim>\<open>displayBid\<close> is outside
  the store; what is printed is recorded as the sequence of bids displayed.
\<close>

partial_function (option) PrintList_loop ::
    "addr option \<Rightarrow> LinkedList \<Rightarrow> Bid list \<Rightarrow> Bid list option" where
  "PrintList_loop current s out =
     (case current of
        None \<Rightarrow> Some out
      | Some a \<Rightarrow>
          (case heap s a of
             None \<Rightarrow> None
           | Some n \<Rightarrow> PrintList_loop (nxt n) s (out @ [bid n])))"

definition PrintList :: "LinkedList \<Rightarrow> Bid list option" where
  "PrintList s = PrintList_loop (head s) s []"

text \<open>
  \<^verbatim>\<open>Remove\<close>, the loop over the nodes after the head: \<open>current\<close> is the node
  whose successor is examined.
\<close>

partial_function (option) Remove_loop ::
    "string \<Rightarrow> addr \<Rightarrow> LinkedList \<Rightarrow> LinkedList option" where
  "Remove_loop k current s =
     (case heap s current of
        None \<Rightarrow> None
      | Some cn \<Rightarrow>
          (case nxt cn of
             None \<Rightarrow> Some s
           | Some temp \<Rightarrow>
               (case heap s temp of
                  None \<Rightarrow> None
                | Some tn \<Rightarrow>
                    if bidId (bid tn) = k then
                      do {
                        s1 \<leftarrow> set_next current (nxt tn) s;
                        s2 \<leftarrow> Some (if Some temp = tail s1 then s1\<lparr>tail := Some current\<rparr> else s1);
                        s3 \<leftarrow> delete_Node temp s2;
                        n \<leftarrow> decr (size_n s3);
                        Some (s3\<lparr>size_n := n\<rparr>)
                      }
                    else Remove_loop k temp s)))"

text \<open>
  \<^verbatim>\<open>void LinkedList::Remove(const string& bidId)\<close>: nothing on the empty list;
  the head case (\<^verbatim>\<open>head = head->next; delete temp; size--; if (head == nullptr)
  tail = nullptr\<close>); otherwise the loop.
\<close>

definition Remove :: "string \<Rightarrow> LinkedList \<Rightarrow> LinkedList option" where
  "Remove k s =
     (case head s of
        None \<Rightarrow> Some s
      | Some temp \<Rightarrow>
          (case heap s temp of
             None \<Rightarrow> None
           | Some hn \<Rightarrow>
               if bidId (bid hn) = k then
                 do {
                   s1 \<leftarrow> Some (s\<lparr>head := nxt hn\<rparr>);
                   s2 \<leftarrow> delete_Node temp s1;
                   n \<leftarrow> decr (size_n s2);
                   s3 \<leftarrow> Some (s2\<lparr>size_n := n\<rparr>);
                   Some (if head s3 = None then s3\<lparr>tail := None\<rparr> else s3)
                 }
               else Remove_loop k temp s))"

text \<open>
  \<^verbatim>\<open>Bid LinkedList::Search(const string& bidId) const\<close>: the head first, then
  the loop from \<^verbatim>\<open>head->next\<close>; \<^verbatim>\<open>Bid{}\<close> when nothing matches.
\<close>

partial_function (option) Search_loop ::
    "string \<Rightarrow> addr option \<Rightarrow> LinkedList \<Rightarrow> Bid option" where
  "Search_loop k current s =
     (case current of
        None \<Rightarrow> Some Bid_default
      | Some a \<Rightarrow>
          (case heap s a of
             None \<Rightarrow> None
           | Some n \<Rightarrow> if bidId (bid n) = k then Some (bid n) else Search_loop k (nxt n) s))"

definition Search :: "string \<Rightarrow> LinkedList \<Rightarrow> Bid option" where
  "Search k s =
     (case head s of
        None \<Rightarrow> Search_loop k None s
      | Some h \<Rightarrow>
          (case heap s h of
             None \<Rightarrow> None
           | Some hn \<Rightarrow> if bidId (bid hn) = k then Some (bid hn) else Search_loop k (nxt hn) s))"

text \<open>
  A call \<^verbatim>\<open>list.Remove(bidId)\<close> as its caller sees it: the value returned and the
  store. The function is \<^verbatim>\<open>void\<close>, so the value is the one element of \<open>unit\<close>.
\<close>

definition Remove_call :: "string \<Rightarrow> LinkedList \<Rightarrow> (unit \<times> LinkedList) option" where
  "Remove_call k s = map_option (Pair ()) (Remove k s)"

text \<open>\<^verbatim>\<open>int LinkedList::Size() const { return size; }\<close>\<close>

definition Size :: "LinkedList \<Rightarrow> int" where
  "Size s = size_n s"

subsection \<open>The class as mirrored in the unit tests\<close>

text \<open>
  The test file declares its own copy of the class. Its \<^verbatim>\<open>Append\<close> is the
  text of the one above (with \<^verbatim>\<open>listSize\<close> for \<^verbatim>\<open>size\<close>). Its \<^verbatim>\<open>Remove\<close>
  has the same statements and returns \<^verbatim>\<open>bool\<close>; its \<^verbatim>\<open>Search\<close> is one loop
  from \<^verbatim>\<open>head\<close> that returns a pointer to the bid found, or \<^verbatim>\<open>nullptr\<close>
  (here: the address of the node that holds the bid).
\<close>

partial_function (option) Remove_test_loop ::
    "string \<Rightarrow> addr \<Rightarrow> LinkedList \<Rightarrow> (bool \<times> LinkedList) option" where
  "Remove_test_loop k current s =
     (case heap s current of
        None \<Rightarrow> None
      | Some cn \<Rightarrow>
          (case nxt cn of
             None \<Rightarrow> Some (False, s)
           | Some temp \<Rightarrow>
               (case heap s temp of
                  None \<Rightarrow> None
                | Some tn \<Rightarrow>
                    if bidId (bid tn) = k then
                      do {
                        s1 \<leftarrow> set_next current (nxt tn) s;
                        s2 \<leftarrow> Some (if Some temp = tail s1 then s1\<lparr>tail := Some current\<rparr> else s1);
                        s3 \<leftarrow> delete_Node temp s2;
                        n \<leftarrow> decr (size_n s3);
                        Some (True, s3\<lparr>size_n := n\<rparr>)
                      }
                    else Remove_test_loop k temp s)))"

definition Remove_test :: "string \<Rightarrow> LinkedList \<Rightarrow> (bool \<times> LinkedList) option" where
  "Remove_test k s =
     (case head s of
        None \<Rightarrow> Some (False, s)
      | Some temp \<Rightarrow>
          (case heap s temp of
             None \<Rightarrow> None
           | Some hn \<Rightarrow>
               if bidId (bid hn) = k then
                 do {
                   s1 \<leftarrow> Some (s\<lparr>head := nxt hn\<rparr>);
                   s2 \<leftarrow> delete_Node temp s1;
                   n \<leftarrow> decr (size_n s2);
                   s3 \<leftarrow> Some (s2\<lparr>size_n := n\<rparr>);
                   Some (True, if head s3 = None then s3\<lparr>tail := None\<rparr> else s3)
                 }
               else Remove_test_loop k temp s))"

partial_function (option) Search_test_loop ::
    "string \<Rightarrow> addr option \<Rightarrow> LinkedList \<Rightarrow> addr option option" where
  "Search_test_loop k current s =
     (case current of
        None \<Rightarrow> Some None
      | Some a \<Rightarrow>
          (case heap s a of
             None \<Rightarrow> None
           | Some n \<Rightarrow> if bidId (bid n) = k then Some (Some a) else Search_test_loop k (nxt n) s))"

definition Search_test :: "string \<Rightarrow> LinkedList \<Rightarrow> addr option option" where
  "Search_test k s = Search_test_loop k (head s) s"

text \<open>\<^verbatim>\<open>bool Contains(const string& bidId) { return Search(bidId) != nullptr; }\<close>\<close>

definition Contains_test :: "string \<Rightarrow> LinkedList \<Rightarrow> bool option" where
  "Contains_test k s = map_option (\<lambda>p. p \<noteq> None) (Search_test k s)"

subsection \<open>Sequences of operations\<close>

datatype op = OpAppend Bid | OpPrepend Bid | OpRemove string

fun apply_op :: "op \<Rightarrow> LinkedList \<Rightarrow> LinkedList option" where
  "apply_op (OpAppend b) s = Append b s"
| "apply_op (OpPrepend b) s = Prepend b s"
| "apply_op (OpRemove k) s = Remove k s"

fun run :: "op list \<Rightarrow> LinkedList \<Rightarrow> LinkedList option" where
  "run [] s = Some s"
| "run (x # xs) s = (case apply_op x s of None \<Rightarrow> None | Some s' \<Rightarrow> run xs s')"

subsection \<open>The list a store represents\<close>

text \<open>
  \<open>chain h p xs\<close>: following \<open>nxt\<close> from the pointer \<open>p\<close> in the heap \<open>h\<close> visits
  exactly the nodes at the addresses \<open>map fst xs\<close>, which hold the bids
  \<open>map snd xs\<close>, and then reaches \<^verbatim>\<open>nullptr\<close>.
\<close>

primrec chain :: "(addr \<Rightarrow> Node option) \<Rightarrow> addr option \<Rightarrow> (addr \<times> Bid) list \<Rightarrow> bool" where
  "chain h p [] = (p = None)"
| "chain h p (x # xs) =
     (p = Some (fst x) \<and>
      (case h (fst x) of None \<Rightarrow> False | Some n \<Rightarrow> bid n = snd x \<and> chain h (nxt n) xs))"

text \<open>
  \<open>wf s xs\<close>: the store \<open>s\<close> is the list \<open>xs\<close>: \<open>head\<close> starts the chain,
  \<open>tail\<close> is its last node, \<open>size_n\<close> its length, and every live address is
  below the allocator's limit.
\<close>

definition wf :: "LinkedList \<Rightarrow> (addr \<times> Bid) list \<Rightarrow> bool" where
  "wf s xs =
     (chain (heap s) (head s) xs \<and>
      tail s = (if xs = [] then None else Some (fst (last xs))) \<and>
      size_n s = int (length xs) \<and>
      (\<forall>a. heap s a \<noteq> None \<longrightarrow> a < lim s))"

text \<open>Removing the first entry whose bid has the identifier \<open>k\<close>.\<close>

fun remove_first :: "string \<Rightarrow> (addr \<times> Bid) list \<Rightarrow> (addr \<times> Bid) list" where
  "remove_first k [] = []"
| "remove_first k (x # xs) = (if bidId (snd x) = k then xs else x # remove_first k xs)"

text \<open>The bids of the appends in call order, and of the prepends in call order.\<close>

fun appended :: "op list \<Rightarrow> Bid list" where
  "appended [] = []"
| "appended (OpAppend b # ops) = b # appended ops"
| "appended (x # ops) = appended ops"

fun prepended :: "op list \<Rightarrow> Bid list" where
  "prepended [] = []"
| "prepended (OpPrepend b # ops) = b # prepended ops"
| "prepended (x # ops) = prepended ops"

fun is_insert :: "op \<Rightarrow> bool" where
  "is_insert (OpRemove k) = False"
| "is_insert x = True"

text \<open>The same on a sequence of bids: the first bid with the identifier \<open>k\<close> is dropped.\<close>

fun remove_bid :: "string \<Rightarrow> Bid list \<Rightarrow> Bid list" where
  "remove_bid k [] = []"
| "remove_bid k (b # bs) = (if bidId b = k then bs else b # remove_bid k bs)"

text \<open>Two calls of the test class's \<^verbatim>\<open>Remove\<close> in a row; the two results.\<close>

definition Remove_test_twice :: "string \<Rightarrow> LinkedList \<Rightarrow> (bool \<times> bool) option" where
  "Remove_test_twice k s =
     (case Remove_test k s of
        None \<Rightarrow> None
      | Some (r1, s1) \<Rightarrow>
          (case Remove_test k s1 of
             None \<Rightarrow> None
           | Some (r2, s2) \<Rightarrow> Some (r1, r2)))"

subsection \<open>Example data\<close>

text \<open>Bids as the unit tests build them: an identifier and a title, the rest default.\<close>

definition bid1 :: Bid where
  "bid1 = \<lparr>bidId = ''001'', title = ''First'', fund = [], amount = 0\<rparr>"

definition bid2 :: Bid where
  "bid2 = \<lparr>bidId = ''002'', title = ''Second'', fund = [], amount = 0\<rparr>"

definition bid3 :: Bid where
  "bid3 = \<lparr>bidId = ''003'', title = [], fund = [], amount = 0\<rparr>"

text \<open>A bid whose identifier is the empty string, and a second bid with the identifier of \<open>bid1\<close>.\<close>

definition bid_noid :: Bid where
  "bid_noid = \<lparr>bidId = [], title = ''Untitled'', fund = ''GEN'', amount = 5\<rparr>"

definition bid1_again :: Bid where
  "bid1_again = \<lparr>bidId = ''001'', title = ''Other'', fund = [], amount = 0\<rparr>"

section \<open>The loader of LinkedList.cpp\<close>

subsection \<open>What the loader uses of the CSV parser\<close>

text \<open>
  \<^verbatim>\<open>CSVparser.hpp\<close> and \<^verbatim>\<open>CSVparser.cpp\<close> are not among the sources.
  \<^verbatim>\<open>loadBids\<close> uses four things of them: the exception type \<^verbatim>\<open>csv::Error\<close>, the
  constructor \<^verbatim>\<open>csv::Parser file(csvPath)\<close>, \<^verbatim>\<open>file.rowCount()\<close> and
  \<^verbatim>\<open>file[i][j]\<close>. The constructor is a parameter of the model of \<^verbatim>\<open>loadBids\<close>;
  the rest is modelled from the specification.
\<close>

text \<open>
  Modelled from the spec: the error taxonomy of the parser, which the source declares
  as \<^verbatim>\<open>csv::Error\<close> in the missing header. FileError: the path cannot be opened;
  ParseError: a malformed line, with its line number and raw text; IndexError: a row
  or column out of range.
\<close>

datatype csv_error = FileError | ParseError nat string | IndexError

text \<open>
  Modelled from the spec: the row table of the document model, declared in the
  missing header: a header row of column names and an ordered sequence of rows, each
  an ordered sequence of field strings.
\<close>

record Document =
  header :: "string list"
  rows :: "string list list"

text \<open>Modelled from the spec: \<^verbatim>\<open>rowCount()\<close> of the missing parser, the number of data rows.\<close>

definition RowCount :: "Document \<Rightarrow> nat" where
  "RowCount d = length (rows d)"

text \<open>
  Modelled from the spec: \<^verbatim>\<open>file[i][j]\<close> of the missing parser, the spec's
  \<open>Cell(row, col)\<close>: bounds-checked access that fails with an IndexError on an
  out-of-range row or column rather than returning a sentinel.
\<close>

definition Cell :: "Document \<Rightarrow> nat \<Rightarrow> nat \<Rightarrow> csv_error + string" where
  "Cell d i j =
     (if i < length (rows d) \<and> j < length (rows d ! i) then Inr (rows d ! i ! j)
      else Inl IndexError)"

subsection \<open>strToDouble and loadBids\<close>

text \<open>
  \<^verbatim>\<open>double strToDouble(string str, char ch)\<close>: erase every occurrence of \<open>ch\<close>, then
  \<^verbatim>\<open>atof\<close>. The C library's \<^verbatim>\<open>atof\<close> is a parameter.
\<close>

definition strToDouble :: "(string \<Rightarrow> real) \<Rightarrow> string \<Rightarrow> char \<Rightarrow> real" where
  "strToDouble atof str ch = atof (filter (\<lambda>c. c \<noteq> ch) str)"

text \<open>
  The body of the \<^verbatim>\<open>for\<close> loop up to the call of \<^verbatim>\<open>Append\<close>: the four cells are read
  in the order of the source (columns 1, 0, 8, 4); the first failing access throws.
\<close>

definition row_Bid :: "(string \<Rightarrow> real) \<Rightarrow> Document \<Rightarrow> nat \<Rightarrow> csv_error + Bid" where
  "row_Bid atof file i =
     (case Cell file i 1 of
        Inl e \<Rightarrow> Inl e
      | Inr c1 \<Rightarrow>
          (case Cell file i 0 of
             Inl e \<Rightarrow> Inl e
           | Inr c0 \<Rightarrow>
               (case Cell file i 8 of
                  Inl e \<Rightarrow> Inl e
                | Inr c8 \<Rightarrow>
                    (case Cell file i 4 of
                       Inl e \<Rightarrow> Inl e
                     | Inr c4 \<Rightarrow>
                         Inr \<lparr>bidId = c1, title = c0, fund = c8,
                              amount = strToDouble atof c4 (CHR ''$'')\<rparr>))))"

text \<open>
  \<^verbatim>\<open>for (int i = 0; i < file.rowCount(); i++) { ... list->Append(bid); }\<close>. The result
  is how the loop is left (\<open>Inl e\<close>: by the exception \<open>e\<close>) and the list at that moment.
  The counter \<open>i\<close> never exceeds the number of appends made, so \<^verbatim>\<open>i++\<close> cannot
  overflow before \<^verbatim>\<open>size++\<close> does.
\<close>

function loadBids_loop ::
    "(string \<Rightarrow> real) \<Rightarrow> Document \<Rightarrow> nat \<Rightarrow> LinkedList \<Rightarrow> ((csv_error + unit) \<times> LinkedList) option" where
  "loadBids_loop atof file i s =
     (if i < RowCount file then
        (case row_Bid atof file i of
           Inl e \<Rightarrow> Some (Inl e, s)
         | Inr b \<Rightarrow>
             (case Append b s of
                None \<Rightarrow> None
              | Some s' \<Rightarrow> loadBids_loop atof file (Suc i) s'))
      else Some (Inr (), s))"
  by pat_completeness auto
termination
  by (relation "measure (\<lambda>(atof, file, i, s). RowCount file - i)") auto

declare loadBids_loop.simps [simp del]

text \<open>
  \<^verbatim>\<open>void loadBids(string csvPath, LinkedList *list)\<close>. \<open>Parser\<close> is the constructor of
  the missing \<^verbatim>\<open>csv::Parser\<close>: the document it builds for a path, or the error it
  throws. The result has three parts: how the function returns to its caller (\<open>Inl e\<close>
  would be the exception \<open>e\<close> leaving the function, \<open>Inr ()\<close> is a normal return of
  \<^verbatim>\<open>void\<close>), the list, and the errors written to \<^verbatim>\<open>std::cerr\<close> by the \<^verbatim>\<open>catch\<close>
  block. The line written to \<^verbatim>\<open>std::cout\<close> is left out.
\<close>

definition loadBids ::
    "(string \<Rightarrow> csv_error + Document) \<Rightarrow> (string \<Rightarrow> real) \<Rightarrow> string \<Rightarrow> LinkedList \<Rightarrow>
     ((csv_error + unit) \<times> LinkedList \<times> csv_error list) option" where
  "loadBids Parser atof csvPath s =
     (case (case Parser csvPath of
              Inl e \<Rightarrow> Some (Inl e, s)
            | Inr file \<Rightarrow> loadBids_loop atof file 0 s) of
        None \<Rightarrow> None
      | Some (Inl e, s') \<Rightarrow> Some (Inr (), s', [e])
      | Some (Inr u, s') \<Rightarrow> Some (Inr (), s', []))"

text \<open>What \<^verbatim>\<open>PrintList\<close> shows after \<^verbatim>\<open>loadBids\<close>, with how it returned and what it wrote.\<close>

definition loadBids_shown ::
    "(string \<Rightarrow> csv_error + Document) \<Rightarrow> (string \<Rightarrow> real) \<Rightarrow> string \<Rightarrow> LinkedList \<Rightarrow>
     ((csv_error + unit) \<times> Bid list \<times> csv_error list) option" where
  "loadBids_shown Parser atof csvPath s =
     (case loadBids Parser atof csvPath s of
        None \<Rightarrow> None
      | Some (r, s', err) \<Rightarrow>
          (case PrintList s' of None \<Rightarrow> None | Some bs \<Rightarrow> Some (r, bs, err)))"

text \<open>The bid that the loop builds from a row with at least nine columns.\<close>

definition bid_of_row :: "(string \<Rightarrow> real) \<Rightarrow> string list \<Rightarrow> Bid" where
  "bid_of_row atof r =
     \<lparr>bidId = r ! 1, title = r ! 0, fund = r ! 8, amount = atof (filter (\<lambda>c. c \<noteq> CHR ''$'') (r ! 4))\<rparr>"

subsection \<open>Example parsers and files\<close>

text \<open>A parser for which no path can be opened.\<close>

definition Parser_unopenable :: "string \<Rightarrow> csv_error + Document" where
  "Parser_unopenable csvPath = Inl FileError"

text \<open>A parser that finds line 2 of every file malformed: an unterminated quote.\<close>

definition Parser_malformed :: "string \<Rightarrow> csv_error + Document" where
  "Parser_malformed csvPath = Inl (ParseError 2 (CHR 0x22 # ''Acme, Inc''))"

text \<open>
  The file with the header \<^verbatim>\<open>title,id,fund,amount\<close> and the row
  \<^verbatim>\<open>Roadwork,98109,GEN,$1200.50\<close>, as a parser that opens every path with this
  document.
\<close>

definition doc4 :: Document where
  "doc4 = \<lparr>header = [''title'', ''id'', ''fund'', ''amount''],
            rows = [[''Roadwork'', ''98109'', ''GEN'', ''$1200.50'']]\<rparr>"

definition Parser_doc4 :: "string \<Rightarrow> csv_error + Document" where
  "Parser_doc4 csvPath = Inr doc4"

text \<open>
  A file with nine columns, as the bundled data set has them: title, identifier,
  amount and fund in columns 0, 1, 4 and 8.
\<close>

definition doc9 :: Document where
  "doc9 = \<lparr>header = [''title'', ''id'', ''c2'', ''c3'', ''amount'', ''c5'', ''c6'', ''c7'', ''fund''],
            rows = [[''Roadwork'', ''98109'', [], [], ''$1200.50'', [], [], [], ''GEN'']]\<rparr>"

definition Parser_doc9 :: "string \<Rightarrow> csv_error + Document" where
  "Parser_doc9 csvPath = Inr doc9"

text \<open>
  A stand-in for \<^verbatim>\<open>atof\<close> on the one string the examples convert; any other
  string is sent to 0.
\<close>

definition atof_example :: "string \<Rightarrow> real" where
  "atof_example str = (if str = ''1200.50'' then 1200.5 else 0)"

section \<open>The document model of the specification\<close>

text \<open>
  The tokenizer, \<open>Load\<close> and \<open>Serialize\<close> belong to the CSV parser, whose source
  files are not among the sources; the definitions of this section follow the
  specification's sections 4.1 and 4.2 sentence by sentence.
\<close>


















section \<open>Properties of the record store\<close>

subsection \<open>Chains\<close>

lemma chain_None [simp]: "chain h None xs = (xs = [])"
  by (cases xs) auto

lemma chain_unique: "chain h p xs \<Longrightarrow> chain h p ys \<Longrightarrow> xs = ys"
proof (induction xs arbitrary: p ys)
  case Nil
  then show ?case by simp
next
  case (Cons x xs)
  then obtain y ys' where ys: "ys = y # ys'"
    by (cases ys) auto
  from Cons.prems show ?case
    unfolding ys
    by (auto split: option.splits dest: Cons.IH simp: prod_eq_iff)
qed

lemma chain_upd_other:
  "a \<notin> fst ` set xs \<Longrightarrow> chain (h(a := v)) p xs = chain h p xs"
  by (induction xs arbitrary: p) (auto split: option.splits)

lemma chain_live: "chain h p xs \<Longrightarrow> x \<in> set xs \<Longrightarrow> h (fst x) \<noteq> None"
  by (induction xs arbitrary: p) (auto split: option.splits)

lemma chain_length_suffix:
  "chain h p xs \<Longrightarrow> chain h p (ys @ xs) \<Longrightarrow> ys = []"
proof (induction xs arbitrary: p ys)
  case Nil
  then show ?case by simp
next
  case (Cons x xs)
  show ?case
  proof (cases ys)
    case Nil
    then show ?thesis by simp
  next
    case (Cons y ys')
    with Cons.prems have "chain h p (x # xs)" "chain h p (y # ys' @ x # xs)"
      by simp_all
    then have "x # xs = y # ys' @ x # xs"
      by (rule chain_unique)
    then show ?thesis by simp
  qed
qed

lemma chain_Cons:
  "chain h p (x # xs) =
     (p = Some (fst x) \<and> (\<exists>n. h (fst x) = Some n \<and> bid n = snd x \<and> chain h (nxt n) xs))"
  by (auto split: option.splits)

declare chain.simps(2) [simp del]

declare chain_Cons [simp]

lemma chain_drop: "chain h p (ys @ z # zs) \<Longrightarrow> chain h (Some (fst z)) (z # zs)"
proof (induction ys arbitrary: p)
  case Nil
  then show ?case by simp
next
  case (Cons y ys)
  from Cons.prems obtain n where "chain h (nxt (n::Node)) (ys @ z # zs)"
    by (auto simp only: append_Cons chain_Cons)
  then show ?case by (rule Cons.IH)
qed

lemma chain_hd_notin:
  assumes "chain h p (x # xs)"
  shows "fst x \<notin> fst ` set xs"
proof
  assume "fst x \<in> fst ` set xs"
  then obtain z where z: "z \<in> set xs" "fst z = fst x"
    by auto
  then obtain ys zs where xs: "xs = ys @ z # zs"
    by (auto simp: in_set_conv_decomp)
  from assms have "chain h (Some (fst x)) ((x # ys) @ z # zs)"
    by (simp add: xs)
  moreover from this have "chain h (Some (fst x)) (z # zs)"
    using chain_drop [of h "Some (fst x)" "x # ys" z zs] z by simp
  ultimately have "x # ys = []"
    by (rule chain_length_suffix [rotated])
  then show False by simp
qed

lemma chain_tl: "chain h p (x # xs) \<Longrightarrow> \<exists>n. h (fst x) = Some n \<and> bid n = snd x \<and> chain h (nxt n) xs"
  by (auto split: option.splits)

lemma chain_distinct: "chain h p xs \<Longrightarrow> distinct (map fst xs)"
proof (induction xs arbitrary: p)
  case Nil
  then show ?case by simp
next
  case (Cons x xs)
  from chain_tl [OF Cons.prems] obtain n :: Node where "chain h (nxt n) xs" by blast
  then have "distinct (map fst xs)" by (rule Cons.IH)
  with chain_hd_notin [OF Cons.prems] show ?case by simp
qed

lemma chain_last_nxt:
  "chain h p xs \<Longrightarrow> xs \<noteq> [] \<Longrightarrow> \<exists>n. h (fst (last xs)) = Some n \<and> bid n = snd (last xs) \<and> nxt n = None"
  by (induction xs arbitrary: p) (auto split: option.splits)

lemma chain_snoc:
  assumes "chain h p xs" "xs \<noteq> []" "h (fst (last xs)) = Some tn" "a \<notin> fst ` set xs"
  shows "chain (h(a \<mapsto> \<lparr>bid = b, nxt = None\<rparr>, fst (last xs) \<mapsto> tn\<lparr>nxt := Some a\<rparr>)) p (xs @ [(a, b)])"
  using assms
proof (induction xs arbitrary: p)
  case Nil
  then show ?case by simp
next
  case (Cons x xs)
  show ?case
  proof (cases "xs = []")
    case True
    with Cons.prems show ?thesis
      by (auto split: option.splits)
  next
    case False
    from chain_hd_notin [OF Cons.prems(1)] False have neq: "fst x \<noteq> fst (last xs)"
      by (metis image_eqI last_in_set)
    from Cons.prems False obtain n where n: "h (fst x) = Some n" "bid n = snd x" "chain h (nxt n) xs"
      by (auto split: option.splits)
    from Cons.prems have ax: "a \<noteq> fst x" "a \<notin> fst ` set xs" and tn: "h (fst (last xs)) = Some tn"
      using False by auto
    have "chain (h(a \<mapsto> \<lparr>bid = b, nxt = None\<rparr>, fst (last xs) \<mapsto> tn\<lparr>nxt := Some a\<rparr>)) (nxt n) (xs @ [(a, b)])"
      by (rule Cons.IH [OF n(3) False tn ax(2)])
    moreover from Cons.prems have "p = Some (fst x)" by simp
    ultimately show ?thesis
      using n neq ax False by (simp only: append_Cons chain_Cons last_ConsR) simp
  qed
qed

lemma PrintList_loop_chain:
  "chain (heap s) p xs \<Longrightarrow> PrintList_loop p s out = Some (out @ map snd xs)"
proof (induction xs arbitrary: p out)
  case Nil
  then show ?case by (simp add: PrintList_loop.simps)
next
  case (Cons x xs)
  from chain_tl [OF Cons.prems] obtain n where n: "heap s (fst x) = Some n" "bid n = snd x" "chain (heap s) (nxt n) xs"
    by blast
  from Cons.prems have p: "p = Some (fst x)" by simp
  show ?case
    unfolding p
    by (subst PrintList_loop.simps) (simp add: n Cons.IH [OF n(3)])
qed

lemma Search_loop_chain:
  "chain (heap s) p xs \<Longrightarrow>
   Search_loop k p s = Some (case find (\<lambda>b. bidId b = k) (map snd xs) of None \<Rightarrow> Bid_default | Some b \<Rightarrow> b)"
proof (induction xs arbitrary: p)
  case Nil
  then show ?case by (simp add: Search_loop.simps)
next
  case (Cons x xs)
  from chain_tl [OF Cons.prems] obtain n where n: "heap s (fst x) = Some n" "bid n = snd x" "chain (heap s) (nxt n) xs"
    by blast
  from Cons.prems have p: "p = Some (fst x)" by simp
  show ?case
    unfolding p
    by (subst Search_loop.simps) (simp add: n Cons.IH [OF n(3)])
qed

lemma Search_test_loop_chain:
  "chain (heap s) p xs \<Longrightarrow>
   Search_test_loop k p s = Some (map_option fst (find (\<lambda>x. bidId (snd x) = k) xs))"
proof (induction xs arbitrary: p)
  case Nil
  then show ?case by (simp add: Search_test_loop.simps)
next
  case (Cons x xs)
  from chain_tl [OF Cons.prems] obtain n where n: "heap s (fst x) = Some n" "bid n = snd x" "chain (heap s) (nxt n) xs"
    by blast
  from Cons.prems have p: "p = Some (fst x)" by simp
  show ?case
    unfolding p
    by (subst Search_test_loop.simps) (simp add: n Cons.IH [OF n(3)])
qed

subsection \<open>The operations on a well-formed store\<close>

lemma wf_fresh: "wf s xs \<Longrightarrow> lim s \<notin> fst ` set xs"
proof
  assume w: "wf s xs" and "lim s \<in> fst ` set xs"
  then obtain x where x: "x \<in> set xs" "fst x = lim s" by auto
  from w have "chain (heap s) (head s) xs" by (simp add: wf_def)
  from chain_live [OF this x(1)] have "heap s (lim s) \<noteq> None" by (simp add: x)
  with w show False by (auto simp: wf_def)
qed

lemma Append_wf:
  assumes w: "wf s xs" and sz: "size_n s \<noteq> INT_MAX"
  shows "\<exists>s'. Append b s = Some s' \<and> wf s' (xs @ [(lim s, b)]) \<and> lim s' = Suc (lim s)"
proof (cases "xs = []")
  case True
  with w sz show ?thesis
    by (auto simp: wf_def Append_def new_Node_def incr_def)
next
  case False
  from w have ch: "chain (heap s) (head s) xs" by (simp add: wf_def)
  from chain_last_nxt [OF ch False] obtain tn where tn: "heap s (fst (last xs)) = Some tn"
    by blast
  from w False have tl: "tail s = Some (fst (last xs))" by (simp add: wf_def)
  from ch False have hd: "head s \<noteq> None" by (cases xs) auto
  from w tn have lt: "fst (last xs) < lim s" by (auto simp: wf_def)
  have ap: "Append b s = Some (s\<lparr>heap := (heap s)(lim s \<mapsto> \<lparr>bid = b, nxt = None\<rparr>,
        fst (last xs) \<mapsto> tn\<lparr>nxt := Some (lim s)\<rparr>), lim := Suc (lim s), tail := Some (lim s),
        size_n := size_n s + 1\<rparr>)"
    using hd tl tn lt sz by (auto simp: Append_def new_Node_def set_next_def incr_def)
  have "chain ((heap s)(lim s \<mapsto> \<lparr>bid = b, nxt = None\<rparr>,
        fst (last xs) \<mapsto> tn\<lparr>nxt := Some (lim s)\<rparr>)) (head s) (xs @ [(lim s, b)])"
    by (rule chain_snoc [OF ch False tn wf_fresh [OF w]])
  with w show ?thesis
    unfolding ap using lt by (auto simp: wf_def less_Suc_eq)
qed

lemma Prepend_wf:
  assumes w: "wf s xs" and sz: "size_n s \<noteq> INT_MAX"
  shows "\<exists>s'. Prepend b s = Some s' \<and> wf s' ((lim s, b) # xs) \<and> lim s' = Suc (lim s)"
proof (cases "xs = []")
  case True
  with w sz show ?thesis
    by (auto simp: wf_def Prepend_def new_Node_def incr_def)
next
  case False
  from w have ch: "chain (heap s) (head s) xs" by (simp add: wf_def)
  from ch False have hd: "head s \<noteq> None" by (cases xs) auto
  have pp: "Prepend b s = Some (s\<lparr>heap := (heap s)(lim s \<mapsto> \<lparr>bid = b, nxt = head s\<rparr>),
        lim := Suc (lim s), head := Some (lim s), size_n := size_n s + 1\<rparr>)"
    using hd sz by (auto simp: Prepend_def new_Node_def set_next_def incr_def)
  have "chain ((heap s)(lim s \<mapsto> \<lparr>bid = b, nxt = head s\<rparr>)) (head s) xs"
    using ch wf_fresh [OF w] by (simp add: chain_upd_other)
  with w False show ?thesis
    unfolding pp by (auto simp: wf_def less_Suc_eq)
qed

lemma remove_first_nomatch:
  "\<forall>x\<in>set xs. bidId (snd x) \<noteq> k \<Longrightarrow> remove_first k xs = xs"
  by (induction xs) auto

lemma remove_first_match:
  "\<forall>x\<in>set pre. bidId (snd x) \<noteq> k \<Longrightarrow> bidId (snd y) = k \<Longrightarrow>
   remove_first k (pre @ y # post) = pre @ post"
  by (induction pre) auto

lemma first_match_split:
  "\<exists>x\<in>set xs. bidId (snd x) = k \<Longrightarrow>
   \<exists>pre y post. xs = pre @ y # post \<and> (\<forall>x\<in>set pre. bidId (snd x) \<noteq> k) \<and> bidId (snd y) = k"
proof (induction xs)
  case Nil
  then show ?case by simp
next
  case (Cons x xs)
  show ?case
  proof (cases "bidId (snd x) = k")
    case True
    then have "x # xs = [] @ x # xs \<and> (\<forall>x\<in>set []. bidId (snd x) \<noteq> k) \<and> bidId (snd x) = k"
      by simp
    then show ?thesis by blast
  next
    case False
    with Cons obtain pre y post where
      "xs = pre @ y # post" "\<forall>x\<in>set pre. bidId (snd x) \<noteq> k" "bidId (snd y) = k"
      by auto
    with False have "x # xs = (x # pre) @ y # post \<and> (\<forall>x\<in>set (x # pre). bidId (snd x) \<noteq> k) \<and> bidId (snd y) = k"
      by simp
    then show ?thesis by blast
  qed
qed

lemma Remove_loop_nomatch:
  "chain (heap s) (Some c) (x # rest) \<Longrightarrow> \<forall>y\<in>set rest. bidId (snd y) \<noteq> k \<Longrightarrow>
   Remove_loop k c s = Some s"
proof (induction rest arbitrary: c x)
  case Nil
  then show ?case
    by (subst Remove_loop.simps) (auto simp: chain_Cons)
next
  case (Cons y ys)
  from Cons.prems(1) obtain cn yn where
    n: "c = fst x" "heap s c = Some cn" "nxt cn = Some (fst y)" "heap s (fst y) = Some yn"
       "bid yn = snd y" "chain (heap s) (Some (fst y)) (y # ys)"
    by (auto simp: chain_Cons)
  from Cons.prems(2) have "Remove_loop k (fst y) s = Some s"
    by (intro Cons.IH [OF n(6)]) simp
  with n Cons.prems(2) show ?case
    by (subst Remove_loop.simps) simp
qed

lemma Remove_loop_match:
  assumes "chain (heap s) (Some c) (x # pre @ y # post)"
    and "\<forall>z\<in>set pre. bidId (snd z) \<noteq> k" and "bidId (snd y) = k" and "size_n s \<noteq> INT_MIN"
    and "pr = fst (last (x # pre))"
  shows "\<exists>pn yn. heap s pr = Some pn \<and> heap s (fst y) = Some yn \<and>
     Remove_loop k c s =
       Some (s\<lparr>heap := (heap s)(pr \<mapsto> pn\<lparr>nxt := nxt yn\<rparr>, fst y := None),
               tail := (if tail s = Some (fst y) then Some pr else tail s),
               size_n := size_n s - 1\<rparr>)"
  using assms
proof (induction pre arbitrary: c x)
  case Nil
  from Nil.prems(1) obtain cn yn where
    n: "c = fst x" "heap s c = Some cn" "nxt cn = Some (fst y)" "heap s (fst y) = Some yn"
       "bid yn = snd y"
    by auto
  from chain_hd_notin [OF Nil.prems(1)] have neq: "fst y \<noteq> c"
    by (auto simp: n(1))
  from Nil.prems(5) n(1) have pr: "pr = c" by simp
  have "Remove_loop k c s =
       Some (s\<lparr>heap := (heap s)(c \<mapsto> cn\<lparr>nxt := nxt yn\<rparr>, fst y := None),
               tail := (if tail s = Some (fst y) then Some c else tail s),
               size_n := size_n s - 1\<rparr>)"
    using n(2-5) neq Nil.prems(3,4)
    by (subst Remove_loop.simps) (auto simp: set_next_def delete_Node_def decr_def)
  with n(2,4) show ?case
    unfolding pr by blast
next
  case (Cons z zs)
  from Cons.prems(1) obtain cn zn where
    n: "c = fst x" "heap s c = Some cn" "nxt cn = Some (fst z)" "heap s (fst z) = Some zn"
       "bid zn = snd z" "chain (heap s) (Some (fst z)) (z # zs @ y # post)"
    by auto
  from Cons.prems(2) have nm: "bidId (snd z) \<noteq> k" "\<forall>z\<in>set zs. bidId (snd z) \<noteq> k"
    by simp_all
  from Cons.prems(5) have pr: "pr = fst (last (z # zs))" by simp
  have "Remove_loop k c s = Remove_loop k (fst z) s"
    using n nm(1) by (subst Remove_loop.simps) simp
  with Cons.IH [OF n(6) nm(2) Cons.prems(3,4) pr] show ?case
    by simp
qed

lemma unlink_chain:
  assumes "chain h p (xs @ x # y # post)" and "h (fst x) = Some pn" and "h (fst y) = Some yn"
  shows "chain (h(fst x \<mapsto> pn\<lparr>nxt := nxt yn\<rparr>, fst y := None)) p (xs @ x # post)"
proof -
  define h' where "h' = h(fst x \<mapsto> pn\<lparr>nxt := nxt yn\<rparr>, fst y := None)"
  from chain_distinct [OF assms(1)] have d: "fst x \<noteq> fst y" "fst x \<notin> fst ` set post"
    "fst y \<notin> fst ` set post" "fst x \<notin> fst ` set xs" "fst y \<notin> fst ` set xs"
    by auto
  have h'x: "h' (fst x) = Some (pn\<lparr>nxt := nxt yn\<rparr>)"
    using d(1) by (simp add: h'_def)
  have other: "h' a = h a" if "a \<noteq> fst x" "a \<noteq> fst y" for a
    using that by (simp add: h'_def)
  have "chain h' p (xs @ x # post)"
    using assms(1) d(4,5)
  proof (induction xs arbitrary: p)
    case Nil
    with assms(2,3) have f: "p = Some (fst x)" "bid pn = snd x" "chain h (nxt yn) post"
      by auto
    from f(3) d have "chain h' (nxt yn) post"
      by (simp add: h'_def chain_upd_other)
    with f h'x show ?case
      by simp
  next
    case (Cons z zs)
    from Cons.prems(1) obtain n where
      n: "p = Some (fst z)" "h (fst z) = Some n" "bid n = snd z" "chain h (nxt n) (zs @ x # y # post)"
      by auto
    from Cons.prems(2,3) have dz: "fst z \<noteq> fst x" "fst z \<noteq> fst y"
      "fst x \<notin> fst ` set zs" "fst y \<notin> fst ` set zs"
      by auto
    from Cons.IH [OF n(4) dz(3,4)] n other [OF dz(1,2)] show ?case
      by simp
  qed
  then show ?thesis by (simp only: h'_def)
qed

lemma Remove_test_loop_eq:
  "chain (heap s) (Some c) (x # rest) \<Longrightarrow>
   Remove_test_loop k c s = map_option (Pair (\<exists>y\<in>set rest. bidId (snd y) = k)) (Remove_loop k c s)"
proof (induction rest arbitrary: c x)
  case Nil
  then show ?case
    by (subst Remove_test_loop.simps, subst Remove_loop.simps) auto
next
  case (Cons y ys)
  from Cons.prems(1) obtain cn yn where
    n: "c = fst x" "heap s c = Some cn" "nxt cn = Some (fst y)" "heap s (fst y) = Some yn"
       "bid yn = snd y" "chain (heap s) (Some (fst y)) (y # ys)"
    by auto
  show ?case
  proof (cases "bidId (snd y) = k")
    case True
    with n(2-5) show ?thesis
      by (subst Remove_test_loop.simps, subst Remove_loop.simps)
         (auto simp: set_next_def delete_Node_def decr_def split: option.splits)
  next
    case False
    with n(2-5) Cons.IH [OF n(6)] show ?thesis
      by (subst Remove_test_loop.simps, subst Remove_loop.simps) simp
  qed
qed

lemma Remove_test_eq:
  assumes "wf s xs"
  shows "Remove_test k s = map_option (Pair (\<exists>x\<in>set xs. bidId (snd x) = k)) (Remove k s)"
proof (cases xs)
  case Nil
  with assms show ?thesis
    by (simp add: wf_def Remove_test_def Remove_def)
next
  case (Cons x rest)
  with assms have ch: "chain (heap s) (head s) (x # rest)"
    by (simp add: wf_def)
  then obtain hn where n: "head s = Some (fst x)" "heap s (fst x) = Some hn" "bid hn = snd x"
    by auto
  show ?thesis
  proof (cases "bidId (snd x) = k")
    case True
    with n show ?thesis
      by (auto simp: Remove_test_def Remove_def Cons delete_Node_def decr_def)
  next
    case False
    from ch n(1) have "chain (heap s) (Some (fst x)) (x # rest)" by simp
    from Remove_test_loop_eq [OF this, of k] False n show ?thesis
      by (simp add: Remove_test_def Remove_def Cons)
  qed
qed

lemma butlast_last_Cons: "butlast (x # pre) @ last (x # pre) # zs = x # pre @ zs"
proof -
  have "(butlast (x # pre) @ [last (x # pre)]) @ zs = (x # pre) @ zs"
    by (simp only: append_butlast_last_id [of "x # pre"] list.distinct not_False_eq_True)
  then show ?thesis by simp
qed

lemma Remove_wf:
  assumes w: "wf s xs"
  shows "\<exists>s'. Remove k s = Some s' \<and> wf s' (remove_first k xs) \<and> lim s' = lim s \<and>
              ((\<forall>x\<in>set xs. bidId (snd x) \<noteq> k) \<longrightarrow> s' = s)"
proof (cases xs)
  case Nil
  with w show ?thesis
    by (simp add: wf_def Remove_def)
next
  case (Cons x rest)
  from w have ch: "chain (heap s) (head s) xs" and tl: "tail s = Some (fst (last xs))"
    and sz: "size_n s = int (length xs)" and live: "\<forall>a. heap s a \<noteq> None \<longrightarrow> a < lim s"
    by (simp_all add: wf_def Cons)
  from sz have nmin: "size_n s \<noteq> INT_MIN"
    by (simp add: INT_MIN_def)
  from ch obtain hn where n: "head s = Some (fst x)" "heap s (fst x) = Some hn" "bid hn = snd x"
      "chain (heap s) (nxt hn) rest"
    by (auto simp: Cons)
  from ch have dist: "distinct (map fst xs)" by (rule chain_distinct)
  show ?thesis
  proof (cases "bidId (snd x) = k")
    case True
    define s' where "s' = s\<lparr>head := nxt hn, heap := (heap s)(fst x := None),
        size_n := size_n s - 1, tail := (if nxt hn = None then None else tail s)\<rparr>"
    have r: "Remove k s = Some s'"
      using n(1-3) True nmin by (simp add: Remove_def delete_Node_def decr_def s'_def)
    from dist have "fst x \<notin> fst ` set rest" by (simp add: Cons)
    with n(4) have "chain (heap s') (head s') rest"
      by (simp add: s'_def chain_upd_other)
    moreover have "tail s' = (if rest = [] then None else Some (fst (last rest)))"
      using n(4) tl by (cases rest) (simp_all add: s'_def Cons)
    moreover have "size_n s' = int (length rest)"
      using sz by (simp add: s'_def Cons)
    moreover have "\<forall>a. heap s' a \<noteq> None \<longrightarrow> a < lim s'"
      using live by (simp add: s'_def)
    ultimately have "wf s' (remove_first k xs)"
      using True by (simp add: wf_def Cons)
    moreover have "lim s' = lim s" by (simp add: s'_def)
    moreover have "\<not> (\<forall>x\<in>set xs. bidId (snd x) \<noteq> k)" using True by (simp add: Cons)
    ultimately show ?thesis
      using r by blast
  next
    case False
    from ch n(1) have chx: "chain (heap s) (Some (fst x)) (x # rest)" by (simp add: Cons)
    have rl: "Remove k s = Remove_loop k (fst x) s"
      using n(1-3) False by (simp add: Remove_def)
    show ?thesis
    proof (cases "\<exists>y\<in>set rest. bidId (snd y) = k")
      case nomatch: False
      then have "\<forall>y\<in>set rest. bidId (snd y) \<noteq> k" by simp
      from Remove_loop_nomatch [OF chx this] have "Remove k s = Some s"
        by (simp add: rl)
      moreover have "remove_first k xs = xs"
        using nomatch False by (simp add: Cons remove_first_nomatch)
      ultimately show ?thesis
        using w by simp
    next
      case True
      from first_match_split [OF this] obtain pre y post where
        sp: "rest = pre @ y # post" "\<forall>z\<in>set pre. bidId (snd z) \<noteq> k" "bidId (snd y) = k"
        by blast
      define pr where "pr = fst (last (x # pre))"
      from chx have chx': "chain (heap s) (Some (fst x)) (x # pre @ y # post)"
        by (simp only: sp)
      from Remove_loop_match [OF chx' sp(2,3) nmin pr_def] obtain pn yn where
        m: "heap s pr = Some pn" "heap s (fst y) = Some yn"
           "Remove_loop k (fst x) s =
              Some (s\<lparr>heap := (heap s)(pr \<mapsto> pn\<lparr>nxt := nxt yn\<rparr>, fst y := None),
                     tail := (if tail s = Some (fst y) then Some pr else tail s),
                     size_n := size_n s - 1\<rparr>)"
        by blast
      define s' where "s' = s\<lparr>heap := (heap s)(pr \<mapsto> pn\<lparr>nxt := nxt yn\<rparr>, fst y := None),
                     tail := (if tail s = Some (fst y) then Some pr else tail s),
                     size_n := size_n s - 1\<rparr>"
      have r: "Remove k s = Some s'"
        by (simp only: rl m(3) s'_def)
      have hs': "heap s' = (heap s)(pr \<mapsto> pn\<lparr>nxt := nxt yn\<rparr>, fst y := None)"
        and hd': "head s' = head s" and lim': "lim s' = lim s"
        and tl': "tail s' = (if tail s = Some (fst y) then Some pr else tail s)"
        and sz': "size_n s' = size_n s - 1"
        by (simp_all add: s'_def)
      have "chain (heap s) (head s) (butlast (x # pre) @ last (x # pre) # y # post)"
        using ch by (simp only: butlast_last_Cons Cons sp)
      from unlink_chain [OF this m(1) [unfolded pr_def] m(2)]
      have c': "chain (heap s') (head s') (x # pre @ post)"
        by (simp only: hs' hd' pr_def butlast_last_Cons)
      from dist have ynotin: "fst y \<notin> fst ` set post"
        by (simp add: Cons sp)
      have t': "tail s' = Some (fst (last (x # pre @ post)))"
      proof (cases "post = []")
        case True
        with tl show ?thesis by (simp add: tl' Cons sp pr_def)
      next
        case False
        then have "last post \<in> set post" by simp
        with ynotin have "fst (last post) \<noteq> fst y" by (metis imageI)
        with tl False show ?thesis by (simp add: tl' Cons sp)
      qed
      have "size_n s' = int (length (x # pre @ post))"
        using sz by (simp add: sz' Cons sp)
      moreover have "\<forall>a. heap s' a \<noteq> None \<longrightarrow> a < lim s'"
        using live m(1) by (auto simp: hs' lim')
      moreover have "remove_first k xs = x # pre @ post"
        using False sp by (simp add: Cons remove_first_match)
      ultimately have "wf s' (remove_first k xs)"
        using c' t' by (simp add: wf_def)
      moreover have "\<not> (\<forall>x\<in>set xs. bidId (snd x) \<noteq> k)" using True by (simp add: Cons)
      ultimately show ?thesis
        using r lim' by blast
    qed
  qed
qed

subsection \<open>Stores reachable from the empty store\<close>

lemma wf_new: "wf LinkedList_new []"
  by (simp add: wf_def LinkedList_new_def)

lemma Append_Some_size: "Append b s = Some s' \<Longrightarrow> size_n s \<noteq> INT_MAX"
  by (auto simp: Append_def new_Node_def set_next_def incr_def
      split: option.splits if_splits bind_splits)

lemma Prepend_Some_size: "Prepend b s = Some s' \<Longrightarrow> size_n s \<noteq> INT_MAX"
  by (auto simp: Prepend_def new_Node_def set_next_def incr_def
      split: option.splits if_splits bind_splits)

lemma apply_op_wf:
  assumes "wf s xs" and "apply_op x s = Some s'"
  shows "wf s' (case x of OpAppend b \<Rightarrow> xs @ [(lim s, b)] | OpPrepend b \<Rightarrow> (lim s, b) # xs
                 | OpRemove k \<Rightarrow> remove_first k xs)"
proof (cases x)
  case (OpAppend b)
  with assms(2) have "size_n s \<noteq> INT_MAX" by (auto dest: Append_Some_size)
  from Append_wf [OF assms(1) this, of b] assms(2) show ?thesis
    by (auto simp: OpAppend)
next
  case (OpPrepend b)
  with assms(2) have "size_n s \<noteq> INT_MAX" by (auto dest: Prepend_Some_size)
  from Prepend_wf [OF assms(1) this, of b] assms(2) show ?thesis
    by (auto simp: OpPrepend)
next
  case (OpRemove k)
  from Remove_wf [OF assms(1), of k] assms(2) show ?thesis
    by (auto simp: OpRemove)
qed

lemma run_wf: "wf s xs \<Longrightarrow> run ops s = Some s' \<Longrightarrow> \<exists>ys. wf s' ys"
proof (induction ops arbitrary: s xs)
  case Nil
  then show ?case by auto
next
  case (Cons x ops)
  from Cons.prems(2) obtain s1 where s1: "apply_op x s = Some s1" "run ops s1 = Some s'"
    by (auto split: option.splits)
  from apply_op_wf [OF Cons.prems(1) s1(1)] Cons.IH [OF _ s1(2)] show ?case
    by blast
qed

lemma apply_op_total:
  assumes "wf s xs" and "int (length xs) < INT_MAX"
  shows "\<exists>s' ys. apply_op x s = Some s' \<and> wf s' ys \<and> length ys \<le> Suc (length xs)"
proof (cases x)
  case (OpAppend b)
  from assms have "size_n s \<noteq> INT_MAX" by (simp add: wf_def)
  from Append_wf [OF assms(1) this, of b] show ?thesis
    by (force simp: OpAppend)
next
  case (OpPrepend b)
  from assms have "size_n s \<noteq> INT_MAX" by (simp add: wf_def)
  from Prepend_wf [OF assms(1) this, of b] show ?thesis
    by (force simp: OpPrepend)
next
  case (OpRemove k)
  have "length (remove_first k xs) \<le> length xs"
    by (induction xs) auto
  with Remove_wf [OF assms(1), of k] show ?thesis
    by (force simp: OpRemove)
qed

lemma run_total:
  "wf s xs \<Longrightarrow> int (length xs) + int (length ops) \<le> INT_MAX \<Longrightarrow> \<exists>s'. run ops s = Some s'"
proof (induction ops arbitrary: s xs)
  case Nil
  then show ?case by simp
next
  case (Cons x ops)
  from Cons.prems(2) have "int (length xs) < INT_MAX" by simp
  from apply_op_total [OF Cons.prems(1) this, of x] obtain s1 ys where
    s1: "apply_op x s = Some s1" "wf s1 ys" "length ys \<le> Suc (length xs)"
    by blast
  from s1(3) Cons.prems(2) have "int (length ys) + int (length ops) \<le> INT_MAX"
    by simp
  from Cons.IH [OF s1(2) this] s1(1) show ?case
    by simp
qed

lemma wf_ends:
  assumes "wf s xs"
  shows "(head s = None) = (xs = [])" and "(tail s = None) = (xs = [])"
    and "(size_n s = 0) = (xs = [])"
    and "tail s = Some t \<Longrightarrow> \<exists>n. heap s t = Some n \<and> nxt n = None"
proof -
  from assms have ch: "chain (heap s) (head s) xs" by (simp add: wf_def)
  then show "(head s = None) = (xs = [])" by (cases xs) auto
  from assms show "(tail s = None) = (xs = [])" by (simp add: wf_def)
  from assms show "(size_n s = 0) = (xs = [])" by (simp add: wf_def)
  assume t: "tail s = Some t"
  with assms have ne: "xs \<noteq> []" and "t = fst (last xs)" by (auto simp: wf_def split: if_splits)
  with chain_last_nxt [OF ch ne] show "\<exists>n. heap s t = Some n \<and> nxt n = None"
    by auto
qed

subsection \<open>Structural invariants\<close>

text \<open>
  C1. Every store that a sequence of \<open>Append\<close>, \<open>Prepend\<close> and \<open>Remove\<close> calls
  produces from the empty store satisfies the structural invariants: \<open>size\<close> is the
  number of nodes on the chain from \<open>head\<close>; \<open>head\<close> is null iff \<open>tail\<close> is null iff
  \<open>size\<close> is 0; the node \<open>tail\<close> points to is live and its \<open>next\<close> is null. As every
  prefix of a sequence is a sequence, this holds after every operation. The calls do
  produce a store as long as the counter cannot overflow (at most \<open>INT_MAX\<close> calls).
\<close>

theorem invariants_hold:
  "(\<forall>s. run ops LinkedList_new = Some s \<longrightarrow>
      (\<exists>xs. chain (heap s) (head s) xs \<and> size_n s = int (length xs)) \<and>
      ((head s = None) = (tail s = None)) \<and>
      ((tail s = None) = (size_n s = 0)) \<and>
      (\<forall>t. tail s = Some t \<longrightarrow> (\<exists>n. heap s t = Some n \<and> nxt n = None))) \<and>
   (int (length ops) \<le> INT_MAX \<longrightarrow> (\<exists>s. run ops LinkedList_new = Some s))"
proof (intro conjI allI impI)
  fix s
  assume "run ops LinkedList_new = Some s"
  from run_wf [OF wf_new this] obtain xs where w: "wf s xs" by blast
  then show "\<exists>xs. chain (heap s) (head s) xs \<and> size_n s = int (length xs)"
    by (auto simp: wf_def)
  from wf_ends [OF w] show "(head s = None) = (tail s = None)" by simp
  from wf_ends [OF w] show "(tail s = None) = (size_n s = 0)" by simp
  fix t assume "tail s = Some t"
  with wf_ends(4) [OF w] show "\<exists>n. heap s t = Some n \<and> nxt n = None" by simp
next
  assume "int (length ops) \<le> INT_MAX"
  with run_total [OF wf_new, of ops] show "\<exists>s. run ops LinkedList_new = Some s"
    by simp
qed


theorem invariants_hold_witness:
  "\<exists>s. run [OpAppend bid1, OpPrepend bid2, OpRemove ''001'', OpAppend bid3] LinkedList_new = Some s \<and>
      (\<exists>xs. chain (heap s) (head s) xs \<and> size_n s = int (length xs)) \<and>
      ((head s = None) = (tail s = None)) \<and>
      ((tail s = None) = (size_n s = 0)) \<and>
      (\<forall>t. tail s = Some t \<longrightarrow> (\<exists>n. heap s t = Some n \<and> nxt n = None))"
proof -
  have "int (length [OpAppend bid1, OpPrepend bid2, OpRemove ''001'', OpAppend bid3]) \<le> INT_MAX"
    by (simp add: INT_MAX_def)
  with invariants_hold [of "[OpAppend bid1, OpPrepend bid2, OpRemove ''001'', OpAppend bid3]"]
  show ?thesis by blast
qed

subsection \<open>Evaluating the operations on concrete stores\<close>

lemmas ev = Append_def Prepend_def Remove_def new_Node_def set_next_def delete_Node_def incr_def decr_def LinkedList_new_def INT_MAX_def INT_MIN_def Remove_loop.simps PrintList_def PrintList_loop.simps Search_def Search_loop.simps Remove_test_def Remove_test_loop.simps Search_test_def Search_test_loop.simps Size_def

subsection \<open>Insertion order\<close>

lemma PrintList_wf: "wf s xs \<Longrightarrow> PrintList s = Some (map snd xs)"
  using PrintList_loop_chain [of s "head s" xs "[]"] by (simp add: wf_def PrintList_def)

lemma wf_PrintList: "wf s xs \<Longrightarrow> PrintList s = Some bs \<Longrightarrow> bs = map snd xs"
  by (simp add: PrintList_wf)

lemma run_inserts:
  "wf s xs \<Longrightarrow> \<forall>x\<in>set ops. is_insert x \<Longrightarrow> run ops s = Some s' \<Longrightarrow>
   \<exists>ys. wf s' ys \<and> map snd ys = rev (prepended ops) @ map snd xs @ appended ops \<and>
        length ys = length xs + length ops"
proof (induction ops arbitrary: s xs)
  case Nil
  then show ?case by auto
next
  case (Cons x ops)
  from Cons.prems(3) obtain s1 where s1: "apply_op x s = Some s1" "run ops s1 = Some s'"
    by (auto split: option.splits)
  from Cons.prems(2) have ins: "is_insert x" "\<forall>x\<in>set ops. is_insert x" by simp_all
  note w1 = apply_op_wf [OF Cons.prems(1) s1(1)]
  show ?case
  proof (cases x)
    case (OpAppend b)
    with w1 have "wf s1 (xs @ [(lim s, b)])" by simp
    from Cons.IH [OF this ins(2) s1(2)] show ?thesis
      by (auto simp: OpAppend)
  next
    case (OpPrepend b)
    with w1 have "wf s1 ((lim s, b) # xs)" by simp
    from Cons.IH [OF this ins(2) s1(2)] show ?thesis
      by (auto simp: OpPrepend)
  next
    case (OpRemove k)
    with ins(1) show ?thesis by simp
  qed
qed

text \<open>
  C2. For every sequence of \<open>Append\<close> and \<open>Prepend\<close> calls on the empty store:
  \<open>Size()\<close> is the number of calls, and \<open>PrintList\<close> visits the prepended bids in
  the reverse order of their calls followed by the appended bids in the order of their
  calls. A further \<open>Prepend\<close> puts its bid before everything that is in the list at
  that moment, a further \<open>Append\<close> after it. The calls produce a store as long as
  the counter cannot overflow.
\<close>

theorem inserts_size_and_order:
  assumes "\<forall>x\<in>set ops. is_insert x"
  shows "(\<forall>s. run ops LinkedList_new = Some s \<longrightarrow>
            Size s = int (length ops) \<and>
            PrintList s = Some (rev (prepended ops) @ appended ops) \<and>
            (\<forall>b s'. Prepend b s = Some s' \<longrightarrow>
               PrintList s' = Some (b # rev (prepended ops) @ appended ops)) \<and>
            (\<forall>b s'. Append b s = Some s' \<longrightarrow>
               PrintList s' = Some (rev (prepended ops) @ appended ops @ [b]))) \<and>
         (int (length ops) \<le> INT_MAX \<longrightarrow> (\<exists>s. run ops LinkedList_new = Some s))"
proof (intro conjI allI impI)
  fix s
  assume r: "run ops LinkedList_new = Some s"
  from run_inserts [OF wf_new assms r] obtain ys where
    ys: "wf s ys" "map snd ys = rev (prepended ops) @ appended ops" "length ys = length ops"
    by auto
  from ys show "Size s = int (length ops)"
    by (simp add: Size_def wf_def)
  from PrintList_wf [OF ys(1)] ys(2)
  show "PrintList s = Some (rev (prepended ops) @ appended ops)"
    by simp
  {
    fix b s'
    assume "Prepend b s = Some s'"
    with apply_op_wf [OF ys(1), of "OpPrepend b" s'] have "wf s' ((lim s, b) # ys)" by simp
    from PrintList_wf [OF this] ys(2)
    show "PrintList s' = Some (b # rev (prepended ops) @ appended ops)" by simp
  next
    fix b s'
    assume "Append b s = Some s'"
    with apply_op_wf [OF ys(1), of "OpAppend b" s'] have "wf s' (ys @ [(lim s, b)])" by simp
    from PrintList_wf [OF this] ys(2)
    show "PrintList s' = Some (rev (prepended ops) @ appended ops @ [b])" by simp
  }
next
  assume "int (length ops) \<le> INT_MAX"
  with run_total [OF wf_new, of ops] show "\<exists>s. run ops LinkedList_new = Some s"
    by simp
qed

theorem inserts_size_and_order_witness:
  "list_all is_insert [OpAppend bid1, OpPrepend bid2, OpAppend bid3] \<and>
   (\<exists>s. run [OpAppend bid1, OpPrepend bid2, OpAppend bid3] LinkedList_new = Some s \<and>
        Size s = 3 \<and> PrintList s = Some [bid2, bid1, bid3])"
proof -
  have h: "\<forall>x\<in>set [OpAppend bid1, OpPrepend bid2, OpAppend bid3]. is_insert x"
    by simp
  have "int (length [OpAppend bid1, OpPrepend bid2, OpAppend bid3]) \<le> INT_MAX"
    by (simp add: INT_MAX_def)
  with inserts_size_and_order [OF h] obtain s where
    "run [OpAppend bid1, OpPrepend bid2, OpAppend bid3] LinkedList_new = Some s"
    "Size s = int (length [OpAppend bid1, OpPrepend bid2, OpAppend bid3])"
    "PrintList s = Some (rev (prepended [OpAppend bid1, OpPrepend bid2, OpAppend bid3]) @
        appended [OpAppend bid1, OpPrepend bid2, OpAppend bid3])"
    by blast
  then show ?thesis by simp
qed

lemma reach_wf:
  assumes "run ops LinkedList_new = Some s"
  shows "\<exists>xs. wf s xs"
  using run_wf [OF wf_new assms] .

lemma wf_chain_eq: "wf s ys \<Longrightarrow> chain (heap s) (head s) xs \<Longrightarrow> ys = xs"
  by (auto simp: wf_def dest: chain_unique)

subsection \<open>Removal at the ends\<close>

text \<open>
  C3. On a non-empty reachable store whose chain of nodes is \<open>xs\<close>, \<open>Remove k\<close>
  returns a store \<open>s'\<close> such that: if the head node matches, \<open>head\<close> of \<open>s'\<close> is that
  node's former \<open>next\<close>; if the first match is the last node \<open>t\<close> and \<open>p\<close> is the
  node before it, then \<open>t\<close> was \<open>tail\<close>, \<open>p\<close> was its predecessor, and \<open>tail\<close> of \<open>s'\<close>
  is \<open>p\<close>; if the list is one matching node, then \<open>s'\<close> has \<open>head\<close> and \<open>tail\<close> null
  and \<open>size\<close> 0.
\<close>

theorem remove_head_tail_sole:
  assumes "run ops LinkedList_new = Some s" and "chain (heap s) (head s) xs" and "xs \<noteq> []"
  shows "\<exists>s'. Remove k s = Some s' \<and>
     (\<forall>h hn. head s = Some h \<and> heap s h = Some hn \<and> bidId (bid hn) = k \<longrightarrow> head s' = nxt hn) \<and>
     (\<forall>pre p t. xs = pre @ [p, t] \<and> (\<forall>x\<in>set (pre @ [p]). bidId (snd x) \<noteq> k) \<and> bidId (snd t) = k \<longrightarrow>
         tail s = Some (fst t) \<and> (\<exists>pn. heap s (fst p) = Some pn \<and> nxt pn = Some (fst t)) \<and>
         tail s' = Some (fst p)) \<and>
     (\<forall>x. xs = [x] \<and> bidId (snd x) = k \<longrightarrow> head s' = None \<and> tail s' = None \<and> size_n s' = 0)"
proof -
  from reach_wf [OF assms(1)] obtain ys where "wf s ys" by blast
  with wf_chain_eq [OF this assms(2)] have w: "wf s xs" by simp
  from Remove_wf [OF w, of k] obtain s' where
    r: "Remove k s = Some s'" and w': "wf s' (remove_first k xs)"
    by blast
  have 1: "head s' = nxt hn" if "head s = Some h" "heap s h = Some hn" "bidId (bid hn) = k" for h hn
  proof -
    from assms(3) obtain x rest where xs: "xs = x # rest" by (cases xs) auto
    with assms(2) that have x: "fst x = h" "bid hn = snd x" "chain (heap s) (nxt hn) rest"
      by auto
    with that(3) w' have "wf s' rest" by (simp add: xs)
    then have "chain (heap s') (head s') rest" by (simp add: wf_def)
    with x(3) show ?thesis by (cases rest) auto
  qed
  have 2: "tail s = Some (fst t) \<and> (\<exists>pn. heap s (fst p) = Some pn \<and> nxt pn = Some (fst t)) \<and>
         tail s' = Some (fst p)"
    if "xs = pre @ [p, t]" "\<forall>x\<in>set (pre @ [p]). bidId (snd x) \<noteq> k" "bidId (snd t) = k" for pre p t
  proof -
    from w that(1) have "tail s = Some (fst t)" by (simp add: wf_def)
    moreover from assms(2) have "chain (heap s) (head s) (pre @ p # [t])" by (simp add: that(1))
    from chain_drop [OF this] have "\<exists>pn. heap s (fst p) = Some pn \<and> nxt pn = Some (fst t)"
      by auto
    moreover have "remove_first k xs = (pre @ [p]) @ []"
      unfolding that(1) using remove_first_match [OF that(2,3), of "[]"] by simp
    with w' have "tail s' = Some (fst p)" by (simp add: wf_def)
    ultimately show ?thesis by blast
  qed
  have 3: "head s' = None \<and> tail s' = None \<and> size_n s' = 0" if "xs = [x]" "bidId (snd x) = k" for x
  proof -
    from w' that have "wf s' []" by simp
    then show ?thesis by (simp add: wf_def)
  qed
  from r 1 2 3 show ?thesis by blast
qed

theorem remove_head_tail_sole_witness:
  "\<exists>s s'. run [OpAppend bid1, OpAppend bid2, OpAppend bid3] LinkedList_new = Some s \<and>
     chain (heap s) (head s) [(0, bid1), (1, bid2), (2, bid3)] \<and>
     Remove ''003'' s = Some s' \<and> tail s = Some 2 \<and> tail s' = Some 1"
proof -
  obtain s where r: "run [OpAppend bid1, OpAppend bid2, OpAppend bid3] LinkedList_new = Some s"
    by (auto simp: ev)
  then have c: "chain (heap s) (head s) [(0, bid1), (1, bid2), (2, bid3)]"
    by (auto simp: ev)
  have "[(0, bid1), (1, bid2), (2, bid3)] = [(0, bid1)] @ [(1, bid2), (2, bid3)] \<and>
        (\<forall>x\<in>set ([(0::nat, bid1)] @ [(1, bid2)]). bidId (snd x) \<noteq> ''003'') \<and>
        bidId (snd (2::nat, bid3)) = ''003''"
    by (simp add: bid1_def bid2_def bid3_def)
  with remove_head_tail_sole [OF r c, of "''003''"] r c show ?thesis
    by fastforce
qed

subsection \<open>Search\<close>

lemma Search_wf:
  assumes "wf s xs"
  shows "Search k s = Some (case find (\<lambda>b. bidId b = k) (map snd xs) of None \<Rightarrow> Bid_default | Some b \<Rightarrow> b)"
proof -
  from assms have ch: "chain (heap s) (head s) xs" by (simp add: wf_def)
  have "Search k s = Search_loop k (head s) s"
    using ch by (cases xs) (auto simp: Search_def Search_loop.simps [of k "Some a" for a])
  with Search_loop_chain [OF ch] show ?thesis by simp
qed

lemma find_None_bids: "(find (\<lambda>b. bidId b = k) bs = None) = (\<forall>b\<in>set bs. bidId b \<noteq> k)"
  by (auto simp: find_None_iff)

lemma find_map_snd:
  "find (\<lambda>b. bidId b = k) (map snd xs) = map_option snd (find (\<lambda>x. bidId (snd x) = k) xs)"
  by (induction xs) auto

lemma find_live:
  "chain h p xs \<Longrightarrow> find (\<lambda>x. bidId (snd x) = k) xs = Some x \<Longrightarrow>
   \<exists>n. h (fst x) = Some n \<and> bid n = snd x"
  by (induction xs arbitrary: p) (auto split: if_splits)

text \<open>
  C4 (as amended). On a reachable store that \<open>PrintList\<close> shows as \<open>bs\<close>, \<open>Search k\<close>
  returns the first bid of \<open>bs\<close> whose identifier equals \<open>k\<close> (equality of
  strings: case-sensitive, nothing trimmed), and \<^verbatim>\<open>Bid{}\<close> when there is none.
  \<open>Search\<close> with the empty string returns a bid whose identifier is empty, which
  is what callers test: \<^verbatim>\<open>Bid{}\<close> if no stored bid has an empty identifier, and
  otherwise the first stored bid with an empty identifier. The test class's \<open>Search\<close> returns null exactly when no bid matches,
  and otherwise a pointer to the first matching node.
\<close>

theorem search_first_match:
  assumes "run ops LinkedList_new = Some s" and "PrintList s = Some bs"
  shows "Search k s = Some (case find (\<lambda>b. bidId b = k) bs of None \<Rightarrow> Bid_default | Some b \<Rightarrow> b) \<and>
         ((\<forall>b\<in>set bs. bidId b \<noteq> k) \<longrightarrow> Search k s = Some Bid_default) \<and>
         (\<forall>r. Search [] s = Some r \<longrightarrow> bidId r = []) \<and>
         (\<exists>p. Search_test k s = Some p \<and>
              (case p of None \<Rightarrow> \<forall>b\<in>set bs. bidId b \<noteq> k
               | Some a \<Rightarrow> \<exists>n. heap s a = Some n \<and> find (\<lambda>b. bidId b = k) bs = Some (bid n)))"
proof -
  from reach_wf [OF assms(1)] obtain xs where w: "wf s xs" by blast
  from wf_PrintList [OF w assms(2)] have bs: "bs = map snd xs" .
  from w have ch: "chain (heap s) (head s) xs" by (simp add: wf_def)
  have 1: "Search k s = Some (case find (\<lambda>b. bidId b = k) bs of None \<Rightarrow> Bid_default | Some b \<Rightarrow> b)" for k
    using Search_wf [OF w, of k] by (simp add: bs)
  have 2: "Search k s = Some Bid_default" if "\<forall>b\<in>set bs. bidId b \<noteq> k"
    using that 1 [of k] find_None_bids [of k bs] by simp
  have 3: "bidId r = []" if "Search [] s = Some r" for r
  proof (cases "find (\<lambda>b. bidId b = []) bs")
    case None
    with 1 [of "[]"] that show ?thesis by (simp add: Bid_default_def)
  next
    case (Some b)
    then have "bidId b = []" by (auto simp: find_Some_iff)
    with 1 [of "[]"] that Some show ?thesis by simp
  qed
  have 4: "\<exists>p. Search_test k s = Some p \<and>
              (case p of None \<Rightarrow> \<forall>b\<in>set bs. bidId b \<noteq> k
               | Some a \<Rightarrow> \<exists>n. heap s a = Some n \<and> find (\<lambda>b. bidId b = k) bs = Some (bid n))"
  proof (cases "find (\<lambda>x. bidId (snd x) = k) xs")
    case None
    then have "\<forall>b\<in>set bs. bidId b \<noteq> k"
      using find_None_bids [of k bs] by (simp add: bs find_map_snd)
    with Search_test_loop_chain [OF ch, of k] None show ?thesis
      by (simp add: Search_test_def)
  next
    case (Some x)
    from find_live [OF ch Some] obtain n where "heap s (fst x) = Some n" "bid n = snd x"
      by blast
    with Search_test_loop_chain [OF ch, of k] Some show ?thesis
      by (simp add: Search_test_def bs find_map_snd)
  qed
  from 1 2 3 4 show ?thesis by blast
qed

theorem search_first_match_witness:
  "\<exists>s. run [OpAppend bid1, OpAppend bid2, OpAppend bid1_again] LinkedList_new = Some s \<and>
       PrintList s = Some [bid1, bid2, bid1_again] \<and>
       Search ''001'' s = Some bid1 \<and> Search ''002'' s = Some bid2 \<and>
       Search ''0010'' s = Some Bid_default"
proof -
  obtain s where r: "run [OpAppend bid1, OpAppend bid2, OpAppend bid1_again] LinkedList_new = Some s"
    by (auto simp: ev)
  then have p: "PrintList s = Some [bid1, bid2, bid1_again]"
    by (auto simp: ev)
  from search_first_match [OF r p, of "''001''"] search_first_match [OF r p, of "''002''"]
    search_first_match [OF r p, of "''0010''"] r p
  show ?thesis
    by (auto simp: bid1_def bid2_def bid1_again_def)
qed

text \<open>
  The claim as stated fails: in the store holding one bid with an empty identifier,
  \<open>Search\<close> with the empty string returns that bid, which is not \<^verbatim>\<open>Bid{}\<close>, and
  the test class's \<open>Search\<close> returns a non-null pointer.
\<close>

theorem search_empty_id_counterexample:
  "(run [OpAppend bid_noid] LinkedList_new \<bind> Search []) = Some bid_noid \<and>
   bid_noid \<noteq> Bid_default \<and>
   (run [OpAppend bid_noid] LinkedList_new \<bind> Search_test []) = Some (Some 0)"
  by (simp add: ev bid_noid_def Bid_default_def)

subsection \<open>The result of Remove\<close>

lemma map_snd_remove_first: "map snd (remove_first k xs) = remove_bid k (map snd xs)"
  by (induction xs) auto

lemma length_remove_bid:
  "\<exists>b\<in>set bs. bidId b = k \<Longrightarrow> length (remove_bid k bs) + 1 = length bs"
  by (induction bs) auto

lemma remove_bid_nomatch: "\<forall>b\<in>set bs. bidId b \<noteq> k \<Longrightarrow> remove_bid k bs = bs"
  by (induction bs) auto

text \<open>
  C5 (as amended). On a reachable store that \<open>PrintList\<close> shows as \<open>bs\<close>,
  \<^verbatim>\<open>LinkedList::Remove\<close> of LinkedList.cpp returns no value and leaves a store \<open>s'\<close>:
  the first bid with the identifier \<open>k\<close> is gone from the list and \<open>Size\<close> is one less
  if some bid has that identifier, and \<open>s'\<close> is the store as it was if none has. Whether a
  removal occurred is what the change of the store shows, not a returned value.
  The test class's \<open>Remove\<close> leaves the same store and returns a boolean \<open>r\<close>, which is
  true exactly when some bid has the identifier \<open>k\<close>, that is, exactly when the store
  changed.
\<close>

theorem remove_reports_removal:
  assumes "run ops LinkedList_new = Some s" and "PrintList s = Some bs"
  shows "\<exists>r s'. Remove_test k s = Some (r, s') \<and> Remove k s = Some s' \<and>
           Remove_call k s = Some ((), s') \<and>
           r = (\<exists>b\<in>set bs. bidId b = k) \<and> r = (s' \<noteq> s) \<and>
           PrintList s' = Some (remove_bid k bs) \<and>
           (r \<longrightarrow> Size s' = Size s - 1 \<and> length (remove_bid k bs) + 1 = length bs)"
proof -
  from reach_wf [OF assms(1)] obtain xs where w: "wf s xs" by blast
  from wf_PrintList [OF w assms(2)] have bs: "bs = map snd xs" .
  from Remove_wf [OF w, of k] obtain s' where
    r: "Remove k s = Some s'" and w': "wf s' (remove_first k xs)"
    and same: "(\<forall>x\<in>set xs. bidId (snd x) \<noteq> k) \<longrightarrow> s' = s"
    by blast
  define r where "r = (\<exists>b\<in>set bs. bidId b = k)"
  have rt: "Remove_test k s = Some (r, s')"
    using Remove_test_eq [OF w, of k] by (simp add: \<open>Remove k s = Some s'\<close> r_def bs)
  have p': "PrintList s' = Some (remove_bid k bs)"
    using PrintList_wf [OF w'] by (simp add: map_snd_remove_first bs)
  have sz: "Size s' = Size s - 1 \<and> length (remove_bid k bs) + 1 = length bs" if r
  proof -
    from that have m: "\<exists>b\<in>set bs. bidId b = k" by (simp add: r_def)
    from length_remove_bid [OF m] have l: "length (remove_bid k bs) + 1 = length bs" .
    from w w' have "Size s = int (length bs)" "Size s' = int (length (remove_bid k bs))"
      using map_snd_remove_first [of k xs, symmetric]
      by (simp_all add: wf_def Size_def bs)
    with l show ?thesis by linarith
  qed
  have "r = (s' \<noteq> s)"
  proof (cases r)
    case True
    with sz have "Size s' \<noteq> Size s" by simp
    with True show ?thesis by auto
  next
    case False
    then have "\<forall>x\<in>set xs. bidId (snd x) \<noteq> k" by (simp add: r_def bs)
    with same False show ?thesis by simp
  qed
  moreover have "Remove_call k s = Some ((), s')"
    by (simp add: Remove_call_def \<open>Remove k s = Some s'\<close>)
  ultimately show ?thesis
    using \<open>Remove k s = Some s'\<close> rt p' sz unfolding r_def by blast
qed

theorem remove_reports_removal_witness:
  "\<exists>s s1 s2. run [OpAppend bid1, OpAppend bid2] LinkedList_new = Some s \<and>
       PrintList s = Some [bid1, bid2] \<and>
       Remove_test ''002'' s = Some (True, s1) \<and> Remove ''002'' s = Some s1 \<and>
       Remove_call ''002'' s = Some ((), s1) \<and>
       PrintList s1 = Some [bid1] \<and>
       Remove_test ''999'' s = Some (False, s2) \<and> s2 = s"
proof -
  obtain s where r: "run [OpAppend bid1, OpAppend bid2] LinkedList_new = Some s"
    by (auto simp: ev)
  then have p: "PrintList s = Some [bid1, bid2]"
    by (auto simp: ev)
  from remove_reports_removal [OF r p, of "''002''"] remove_reports_removal [OF r p, of "''999''"] r p
  show ?thesis
    by (auto simp: bid1_def bid2_def)
qed

text \<open>
  The claim as stated fails for \<^verbatim>\<open>LinkedList::Remove\<close>: on the store that holds
  the bid \<open>001\<close>, the call that removes it and the call that finds nothing to remove
  return the same value to the caller, the only one a \<^verbatim>\<open>void\<close> function has, while
  the list is empty after the first and unchanged after the second.
\<close>

theorem remove_returns_nothing_counterexample:
  "map_option fst (run [OpAppend bid1] LinkedList_new \<bind> Remove_call ''001'') = Some () \<and>
   map_option fst (run [OpAppend bid1] LinkedList_new \<bind> Remove_call ''999'') = Some () \<and>
   (run [OpAppend bid1] LinkedList_new \<bind> Remove ''001'' \<bind> PrintList) = Some [] \<and>
   (run [OpAppend bid1] LinkedList_new \<bind> Remove ''999'' \<bind> PrintList) = Some [bid1]"
  by (simp add: ev Remove_call_def bid1_def)

subsection \<open>Removing twice\<close>

lemma remove_first_still_match:
  "(\<exists>x\<in>set (remove_first k xs). bidId (snd x) = k) =
   (2 \<le> length (filter (\<lambda>x. bidId (snd x) = k) xs))"
proof (induction xs)
  case Nil
  then show ?case by simp
next
  case (Cons x xs)
  show ?case
  proof (cases "bidId (snd x) = k")
    case True
    have "(\<exists>y\<in>set xs. bidId (snd y) = k) = (filter (\<lambda>x. bidId (snd x) = k) xs \<noteq> [])"
      by (auto simp: filter_empty_conv)
    also have "\<dots> = (1 \<le> length (filter (\<lambda>x. bidId (snd x) = k) xs))"
      by (cases "filter (\<lambda>x. bidId (snd x) = k) xs") auto
    finally show ?thesis using True by simp
  next
    case False
    with Cons show ?thesis by simp
  qed
qed

text \<open>
  C6 (as amended). On a reachable store in which \<open>Search k\<close> finds a bid, the first
  \<open>Remove k\<close> returns true; the second \<open>Remove k\<close> returns true exactly when the
  store held at least two bids with the identifier \<open>k\<close>, so it returns false when
  the identifier was stored once.
\<close>

theorem remove_twice:
  assumes "run ops LinkedList_new = Some s" and "PrintList s = Some bs"
    and "Search_test k s = Some (Some a)"
  shows "\<exists>s1 r2 s2. Remove_test k s = Some (True, s1) \<and> Remove_test k s1 = Some (r2, s2) \<and>
      r2 = (2 \<le> length (filter (\<lambda>b. bidId b = k) bs))"
proof -
  from reach_wf [OF assms(1)] obtain xs where w: "wf s xs" by blast
  from wf_PrintList [OF w assms(2)] have bs: "bs = map snd xs" .
  from w have ch: "chain (heap s) (head s) xs" by (simp add: wf_def)
  from Search_test_loop_chain [OF ch, of k] assms(3)
  have "find (\<lambda>x. bidId (snd x) = k) xs \<noteq> None"
    by (auto simp: Search_test_def)
  then have m: "\<exists>x\<in>set xs. bidId (snd x) = k"
    unfolding find_None_iff by blast
  from Remove_wf [OF w, of k] obtain s1 where
    r1: "Remove k s = Some s1" and w1: "wf s1 (remove_first k xs)"
    by blast
  from Remove_wf [OF w1, of k] obtain s2 where
    r2: "Remove k s1 = Some s2"
    by blast
  from Remove_test_eq [OF w, of k] r1 m have t1: "Remove_test k s = Some (True, s1)"
    by simp
  from Remove_test_eq [OF w1, of k] r2
  have t2: "Remove_test k s1 = Some (2 \<le> length (filter (\<lambda>b. bidId b = k) bs), s2)"
    by (simp add: remove_first_still_match bs filter_map comp_def)
  from t1 t2 show ?thesis by blast
qed

theorem remove_twice_witness:
  "\<exists>s s1 s2. run [OpAppend bid1, OpAppend bid2] LinkedList_new = Some s \<and>
       PrintList s = Some [bid1, bid2] \<and> Search_test ''001'' s = Some (Some 0) \<and>
       Remove_test ''001'' s = Some (True, s1) \<and> Remove_test ''001'' s1 = Some (False, s2)"
proof -
  obtain s where r: "run [OpAppend bid1, OpAppend bid2] LinkedList_new = Some s"
    by (auto simp: ev)
  then have p: "PrintList s = Some [bid1, bid2]" and f: "Search_test ''001'' s = Some (Some 0)"
    by (auto simp: ev bid1_def)
  from remove_twice [OF r p f] r p f
  show ?thesis
    by (auto simp: bid1_def bid2_def)
qed

text \<open>
  The claim as stated fails: after two appends of bids with the identifier \<open>001\<close>,
  \<open>Search\<close> succeeds and both calls of \<open>Remove\<close> return true.
\<close>

theorem remove_twice_counterexample:
  "(run [OpAppend bid1, OpAppend bid1_again] LinkedList_new \<bind> Search_test ''001'') = Some (Some 0) \<and>
   (run [OpAppend bid1, OpAppend bid1_again] LinkedList_new \<bind> Remove_test_twice ''001'')
      = Some (True, True)"
  by (simp add: ev Remove_test_twice_def bid1_def bid1_again_def)

subsection \<open>Append takes any bid\<close>

text \<open>
  C10. On every reachable store, \<open>Append r\<close> adds \<open>r\<close> at the end and increments
  \<open>Size\<close>, whatever identifiers are already stored (the only condition is that the
  counter is below \<open>INT_MAX\<close>); and a store with two bids of equal identifier is
  reachable.
\<close>

theorem append_unconditional:
  "(\<forall>ops s bs r. run ops LinkedList_new = Some s \<and> PrintList s = Some bs \<and> Size s < INT_MAX \<longrightarrow>
       (\<exists>s'. Append r s = Some s' \<and> PrintList s' = Some (bs @ [r]) \<and> Size s' = Size s + 1)) \<and>
   (\<exists>ops s bs. run ops LinkedList_new = Some s \<and> PrintList s = Some bs \<and>
       \<not> distinct (map bidId bs))"
proof (intro conjI allI impI)
  fix ops s bs r
  assume a: "run ops LinkedList_new = Some s \<and> PrintList s = Some bs \<and> Size s < INT_MAX"
  from reach_wf [of ops s] a obtain xs where w: "wf s xs" by blast
  from wf_PrintList [OF w] a have bs: "bs = map snd xs" by simp
  from a have "size_n s \<noteq> INT_MAX" by (simp add: Size_def)
  from Append_wf [OF w this, of r] obtain s' where
    s': "Append r s = Some s'" "wf s' (xs @ [(lim s, r)])"
    by blast
  from PrintList_wf [OF s'(2)] have "PrintList s' = Some (bs @ [r])" by (simp add: bs)
  moreover from w s'(2) have "Size s' = Size s + 1" by (simp add: wf_def Size_def)
  ultimately show "\<exists>s'. Append r s = Some s' \<and> PrintList s' = Some (bs @ [r]) \<and> Size s' = Size s + 1"
    using s'(1) by blast
next
  have "\<exists>s. run [OpAppend bid1, OpAppend bid1_again] LinkedList_new = Some s \<and>
      PrintList s = Some [bid1, bid1_again]"
    by (simp add: ev)
  moreover have "\<not> distinct (map bidId [bid1, bid1_again])"
    by (simp add: bid1_def bid1_again_def)
  ultimately show "\<exists>ops s bs. run ops LinkedList_new = Some s \<and> PrintList s = Some bs \<and>
       \<not> distinct (map bidId bs)"
    by blast
qed

theorem append_unconditional_witness:
  "\<exists>s s'. run [OpAppend bid1] LinkedList_new = Some s \<and> PrintList s = Some [bid1] \<and>
      Size s < INT_MAX \<and> bidId bid1_again \<in> bidId ` set [bid1] \<and>
      Append bid1_again s = Some s' \<and> PrintList s' = Some [bid1, bid1_again] \<and> Size s' = 2"
proof -
  obtain s where r: "run [OpAppend bid1] LinkedList_new = Some s"
    by (auto simp: ev)
  then have p: "PrintList s = Some [bid1]" and z: "Size s = 1"
    by (auto simp: ev)
  from z have lt: "Size s < INT_MAX" by (simp add: INT_MAX_def)
  from append_unconditional r p lt obtain s' where
    "Append bid1_again s = Some s'" "PrintList s' = Some ([bid1] @ [bid1_again])" "Size s' = Size s + 1"
    by blast
  with r p z lt show ?thesis
    by (auto simp: bid1_def bid1_again_def)
qed

section \<open>Properties of the loader\<close>

lemma row_Bid_wide:
  "i < length (rows file) \<Longrightarrow> 9 \<le> length (rows file ! i) \<Longrightarrow>
   row_Bid atof file i = Inr (bid_of_row atof (rows file ! i))"
proof -
  assume i: "i < length (rows file)" and w: "9 \<le> length (rows file ! i)"
  from w have "0 < length (rows file ! i)" "1 < length (rows file ! i)"
    "4 < length (rows file ! i)" "8 < length (rows file ! i)"
    by linarith+
  with i show ?thesis
    by (simp add: row_Bid_def Cell_def bid_of_row_def strToDouble_def)
qed

lemma loadBids_loop_wide:
  "wf s xs \<Longrightarrow> \<forall>r\<in>set (drop i (rows file)). 9 \<le> length r \<Longrightarrow>
   int (length xs) + int (RowCount file - i) \<le> INT_MAX \<Longrightarrow> n = RowCount file - i \<Longrightarrow>
   \<exists>s' ys. loadBids_loop atof file i s = Some (Inr (), s') \<and> wf s' ys \<and>
     map snd ys = map snd xs @ map (bid_of_row atof) (drop i (rows file))"
proof (induction n arbitrary: i s xs)
  case 0
  then have "\<not> i < RowCount file" by simp
  moreover from this have "drop i (rows file) = []" by (simp add: RowCount_def)
  ultimately show ?case
    using 0(1) by (subst loadBids_loop.simps) auto
next
  case (Suc n)
  from Suc.prems(4) have lt: "i < length (rows file)" by (simp add: RowCount_def)
  then have dr: "drop i (rows file) = rows file ! i # drop (Suc i) (rows file)"
    by (simp add: Cons_nth_drop_Suc)
  with Suc.prems(2) have wide: "9 \<le> length (rows file ! i)"
    and rest: "\<forall>r\<in>set (drop (Suc i) (rows file)). 9 \<le> length r"
    by simp_all
  define b where "b = bid_of_row atof (rows file ! i)"
  from row_Bid_wide [OF lt wide] have rb: "row_Bid atof file i = Inr b"
    by (simp add: b_def)
  from Suc.prems(1,3,4) have "size_n s \<noteq> INT_MAX" by (simp add: wf_def)
  from Append_wf [OF Suc.prems(1) this, of b] obtain s1 where
    s1: "Append b s = Some s1" "wf s1 (xs @ [(lim s, b)])"
    by blast
  from Suc.prems(3,4) have room: "int (length (xs @ [(lim s, b)])) + int (RowCount file - Suc i) \<le> INT_MAX"
    by simp
  from Suc.prems(4) have n: "n = RowCount file - Suc i" by simp
  from Suc.IH [OF s1(2) rest room n] obtain s' ys where
    r: "loadBids_loop atof file (Suc i) s1 = Some (Inr (), s')" "wf s' ys"
       "map snd ys = map snd (xs @ [(lim s, b)]) @ map (bid_of_row atof) (drop (Suc i) (rows file))"
    by blast
  have "loadBids_loop atof file i s = Some (Inr (), s')"
    using lt rb s1(1) r(1) by (subst loadBids_loop.simps) (simp add: RowCount_def)
  moreover have "map snd ys = map snd xs @ map (bid_of_row atof) (drop i (rows file))"
    using r(3) by (simp add: dr b_def)
  ultimately show ?case
    using r(2) by blast
qed

subsection \<open>A failing parser\<close>

text \<open>
  C7 (as amended). When the parser fails on the path (the file cannot be opened, or a
  line is malformed), \<^verbatim>\<open>loadBids\<close> catches the error, writes it to \<^verbatim>\<open>std::cerr\<close>
  and returns normally: its caller receives no error. The list is left exactly
  as it was before the call, so no record of the failing file is visible; it is
  empty only if it was empty before. \<^verbatim>\<open>loadBids\<close> never leaves by an exception of
  the parser, whatever the parser does.
\<close>

theorem loadBids_failure_caught:
  "(Parser csvPath = Inl e \<longrightarrow> loadBids Parser atof csvPath s = Some (Inr (), s, [e])) \<and>
   (\<forall>r s' err. loadBids Parser atof csvPath s = Some (r, s', err) \<longrightarrow> r = Inr ())"
  by (auto simp: loadBids_def split: sum.splits option.splits prod.splits)

theorem loadBids_failure_caught_witness:
  "Parser_unopenable ''missing.csv'' = Inl FileError \<and>
   loadBids Parser_unopenable atof_example ''missing.csv'' LinkedList_new
     = Some (Inr (), LinkedList_new, [FileError])"
proof -
  have p: "Parser_unopenable ''missing.csv'' = Inl FileError"
    by (simp add: Parser_unopenable_def)
  with loadBids_failure_caught [of Parser_unopenable "''missing.csv''" FileError atof_example LinkedList_new]
  show ?thesis by blast
qed

text \<open>
  The claim as stated fails: on a list that holds one bid, with a parser that cannot
  open the path, or that finds an unterminated quote, \<^verbatim>\<open>loadBids\<close> returns normally
  (not with an error), and the list is not empty afterwards.
\<close>

theorem loadBids_failure_counterexample:
  "(run [OpAppend bid1] LinkedList_new \<bind> loadBids_shown Parser_unopenable atof_example ''missing.csv'')
     = Some (Inr (), [bid1], [FileError]) \<and>
   (run [OpAppend bid1] LinkedList_new \<bind> loadBids_shown Parser_malformed atof_example ''bids.csv'')
     = Some (Inr (), [bid1], [ParseError 2 (CHR 0x22 # ''Acme, Inc'')])"
  by (simp add: ev loadBids_shown_def loadBids_def Parser_unopenable_def Parser_malformed_def)

subsection \<open>The columns that are read\<close>

text \<open>
  C8 (as amended). \<^verbatim>\<open>loadBids\<close> reads the title from column 0, the identifier
  from column 1, the amount from column 4 (every \<open>$\<close> erased, then \<^verbatim>\<open>atof\<close>) and
  the fund from column 8; the indices and the erased character are written in the
  function, not passed to it. For a file that the parser opens and whose rows all have at
  least nine columns, each row becomes one bid appended to the list in row order.
\<close>

theorem loadBids_columns:
  assumes "run ops LinkedList_new = Some s" and "PrintList s = Some bs"
    and "Parser csvPath = Inr file" and "\<forall>r\<in>set (rows file). 9 \<le> length r"
    and "Size s + int (RowCount file) \<le> INT_MAX"
  shows "loadBids_shown Parser atof csvPath s =
           Some (Inr (), bs @ map (bid_of_row atof) (rows file), [])"
proof -
  from reach_wf [OF assms(1)] obtain xs where w: "wf s xs" by blast
  from wf_PrintList [OF w assms(2)] have bs: "bs = map snd xs" .
  from w assms(5) have room: "int (length xs) + int (RowCount file - 0) \<le> INT_MAX"
    by (simp add: wf_def Size_def)
  from assms(4) have wide: "\<forall>r\<in>set (drop 0 (rows file)). 9 \<le> length r" by simp
  from loadBids_loop_wide [OF w wide room refl, of atof] obtain s' ys where
    r: "loadBids_loop atof file 0 s = Some (Inr (), s')" "wf s' ys"
       "map snd ys = map snd xs @ map (bid_of_row atof) (rows file)"
    by auto
  from PrintList_wf [OF r(2)] r(3) have "PrintList s' = Some (bs @ map (bid_of_row atof) (rows file))"
    by (simp add: bs)
  with r(1) assms(3) show ?thesis
    by (simp add: loadBids_shown_def loadBids_def)
qed

text \<open>
  The claim as stated fails: the file with the four columns \<open>title,id,fund,amount\<close>
  has no column 8, the access fails in the first row, and no bid is loaded.
\<close>

theorem loadBids_columns_counterexample:
  "loadBids_shown Parser_doc4 atof_example ''bids.csv'' LinkedList_new = Some (Inr (), [], [IndexError])"
  by (simp add: ev loadBids_shown_def loadBids_def Parser_doc4_def doc4_def RowCount_def
      row_Bid_def Cell_def loadBids_loop.simps)

theorem loadBids_columns_witness:
  "loadBids_shown Parser_doc9 atof_example ''bids.csv'' LinkedList_new =
     Some (Inr (), [\<lparr>bidId = ''98109'', title = ''Roadwork'', fund = ''GEN'', amount = 1200.5\<rparr>], [])"
proof -
  have r: "run [] LinkedList_new = Some LinkedList_new" by simp
  have p: "PrintList LinkedList_new = Some []" by (simp add: ev)
  have f: "Parser_doc9 ''bids.csv'' = Inr doc9" by (simp add: Parser_doc9_def)
  have w: "\<forall>r\<in>set (rows doc9). 9 \<le> length r" by (simp add: doc9_def)
  have z: "Size LinkedList_new + int (RowCount doc9) \<le> INT_MAX"
    by (simp add: ev RowCount_def doc9_def)
  from loadBids_columns [of "[]" LinkedList_new "[]" Parser_doc9 "''bids.csv''" doc9 atof_example,
      OF r p f w z]
  show ?thesis
    by (simp add: doc9_def bid_of_row_def atof_example_def)
qed

section \<open>Properties of the document model\<close>

subsection \<open>Tokenizing a rendered row\<close>








subsection \<open>Lines, rows and the round trip\<close>

















subsection \<open>Evaluating the document model on concrete files\<close>



end
